theory Spec2Isabelle
  imports Main "HOL-Library.Sublist"
begin

section \<open>The sconfig configuration parser\<close>

text \<open>
  A shallow embedding of the package \<^verbatim>\<open>sconfig\<close> (the file reader, the name resolver,
  the type registry and \<^verbatim>\<open>Parse\<close>). A Go \<^verbatim>\<open>string\<close> is a sequence of bytes and is
  modelled as a \<^typ>\<open>string\<close> (a list of 8-bit characters); a Go \<^verbatim>\<open>error\<close> value is
  modelled by its message. A function returns \<open>fault + 'a\<close>: \<open>Inl (Failed msg)\<close> is a
  returned error, \<open>Inl Panic\<close> is a run-time panic (an index out of range, a failed
  reflective assignment) and \<open>Inl OutOfFuel\<close> says that the nesting bound of the model
  was reached.
\<close>

datatype fault = Failed string | Panic | OutOfFuel

abbreviation backslash :: char where
  "backslash \<equiv> CHR 0x5C"

abbreviation hash :: char where
  "hash \<equiv> CHR ''#''"

subsection \<open>Bytes, runes and the string functions of the Go library\<close>

text \<open>\<^verbatim>\<open>s[k]\<close> with a Go \<^verbatim>\<open>int\<close> index: a panic outside \<open>0 \<le> k < len(s)\<close>.\<close>

definition byteAt :: "string \<Rightarrow> int \<Rightarrow> fault + char" where
  "byteAt s k = (if 0 \<le> k \<and> k < int (length s) then Inr (s ! nat k) else Inl Panic)"

definition RuneError :: nat where
  "RuneError = 0xFFFD"

definition isCont :: "char \<Rightarrow> bool" where
  "isCont c = (0x80 \<le> (of_char c :: nat) \<and> (of_char c :: nat) \<le> 0xBF)"

text \<open>
  \<^verbatim>\<open>utf8.DecodeRuneInString\<close>, which \<^verbatim>\<open>range\<close> over a string uses: the code point and
  its width in bytes; a byte that starts no valid encoding is \<open>RuneError\<close> of width 1.
\<close>

fun DecodeRune :: "string \<Rightarrow> nat \<times> nat" where
  "DecodeRune [] = (RuneError, 0)"
| "DecodeRune (c0 # s) =
     (let b0 = (of_char c0 :: nat) in
      if b0 < 0x80 then (b0, 1)
      else if b0 < 0xC2 \<or> 0xF4 < b0 then (RuneError, 1)
      else if b0 < 0xE0 then
        (case s of
           c1 # _ \<Rightarrow>
             if isCont c1 then ((b0 mod 32) * 64 + (of_char c1 :: nat) mod 64, 2)
             else (RuneError, 1)
         | [] \<Rightarrow> (RuneError, 1))
      else if b0 < 0xF0 then
        (case s of
           c1 # c2 # _ \<Rightarrow>
             if (if b0 = 0xE0 then 0xA0 else 0x80) \<le> (of_char c1 :: nat)
                \<and> (of_char c1 :: nat) \<le> (if b0 = 0xED then 0x9F else 0xBF) \<and> isCont c2
             then ((b0 mod 16) * 4096 + ((of_char c1 :: nat) mod 64) * 64
                    + (of_char c2 :: nat) mod 64, 3)
             else (RuneError, 1)
         | _ \<Rightarrow> (RuneError, 1))
      else
        (case s of
           c1 # c2 # c3 # _ \<Rightarrow>
             if (if b0 = 0xF0 then 0x90 else 0x80) \<le> (of_char c1 :: nat)
                \<and> (of_char c1 :: nat) \<le> (if b0 = 0xF4 then 0x8F else 0xBF)
                \<and> isCont c2 \<and> isCont c3
             then ((b0 mod 8) * 262144 + ((of_char c1 :: nat) mod 64) * 4096
                    + ((of_char c2 :: nat) mod 64) * 64 + (of_char c3 :: nat) mod 64, 4)
             else (RuneError, 1)
         | _ \<Rightarrow> (RuneError, 1)))"

text \<open>\<^verbatim>\<open>string(char)\<close> for the rune that starts \<open>s\<close>: its UTF-8 encoding.\<close>

definition runeString :: "string \<Rightarrow> string" where
  "runeString s =
     (case DecodeRune s of
        (r, w) \<Rightarrow> if r = RuneError \<and> w \<le> 1 then [CHR 0xEF, CHR 0xBF, CHR 0xBD] else take w s)"

text \<open>\<^verbatim>\<open>unicode.IsSpace\<close>: the code points with the property White\_Space.\<close>

definition IsSpace :: "nat \<Rightarrow> bool" where
  "IsSpace r =
     ((0x09 \<le> r \<and> r \<le> 0x0D) \<or> r = 0x20 \<or> r = 0x85 \<or> r = 0xA0 \<or> r = 0x1680
      \<or> (0x2000 \<le> r \<and> r \<le> 0x200A) \<or> r = 0x2028 \<or> r = 0x2029 \<or> r = 0x202F
      \<or> r = 0x205F \<or> r = 0x3000)"

lemma DecodeRune_width: "s \<noteq> [] \<Longrightarrow> 0 < snd (DecodeRune s)"
  by (cases s) (auto simp: Let_def split: list.splits)

text \<open>
  \<^verbatim>\<open>strings.TrimSpace\<close>: the leading and the trailing white space runes are cut off.
  The trailing side looks for a white space rune that ends the string; such a rune is
  at most three bytes wide.
\<close>

function trimLeft :: "string \<Rightarrow> string" where
  "trimLeft s =
     (if s = [] then []
      else if IsSpace (fst (DecodeRune s)) then trimLeft (drop (snd (DecodeRune s)) s)
      else s)"
  by pat_completeness auto
termination
  by (relation "measure length") (auto simp: DecodeRune_width)

declare trimLeft.simps [simp del]

definition lastSpaceWidth :: "string \<Rightarrow> nat" where
  "lastSpaceWidth s =
     (let n = length s in
      if 1 \<le> n \<and> DecodeRune (drop (n - 1) s) \<noteq> (RuneError, 1)
         \<and> IsSpace (fst (DecodeRune (drop (n - 1) s))) then 1
      else if 2 \<le> n \<and> snd (DecodeRune (drop (n - 2) s)) = 2
         \<and> IsSpace (fst (DecodeRune (drop (n - 2) s))) then 2
      else if 3 \<le> n \<and> snd (DecodeRune (drop (n - 3) s)) = 3
         \<and> IsSpace (fst (DecodeRune (drop (n - 3) s))) then 3
      else 0)"

lemma lastSpaceWidth_le: "lastSpaceWidth s \<le> length s"
  by (simp add: lastSpaceWidth_def Let_def)

function trimRight :: "string \<Rightarrow> string" where
  "trimRight s =
     (if lastSpaceWidth s = 0 then s else trimRight (take (length s - lastSpaceWidth s) s))"
  by pat_completeness auto
termination
proof (relation "measure length")
  fix s :: string
  assume "lastSpaceWidth s \<noteq> 0"
  moreover have "lastSpaceWidth s \<le> length s"
    by (rule lastSpaceWidth_le)
  ultimately show "(take (length s - lastSpaceWidth s) s, s) \<in> measure length"
    by simp
qed simp

declare trimRight.simps [simp del]

definition TrimSpace :: "string \<Rightarrow> string" where
  "TrimSpace s = trimRight (trimLeft s)"

text \<open>\<^verbatim>\<open>strings.Index(s, "#")\<close> for a one-byte pattern: the first position of the byte.\<close>

fun IndexByte :: "string \<Rightarrow> char \<Rightarrow> nat option" where
  "IndexByte [] c = None"
| "IndexByte (x # xs) c =
     (if x = c then Some 0 else map_option Suc (IndexByte xs c))"

definition HasPrefix :: "string \<Rightarrow> string \<Rightarrow> bool" where
  "HasPrefix s p = (take (length p) s = p)"

subsection \<open>removeComments\<close>

text \<open>
  The loop of \<^verbatim>\<open>removeComments\<close>, with the variables \<open>line\<close> and \<open>prevcmt\<close> as
  arguments. \<^verbatim>\<open>line[prevcmt:]\<close> panics when \<open>prevcmt\<close> is beyond the end, and
  \<^verbatim>\<open>line[cmt-1]\<close> panics when \<open>cmt = 0\<close>.
\<close>

lemma IndexByte_less: "IndexByte s c = Some k \<Longrightarrow> k < length s"
  by (induction s arbitrary: k) (auto split: if_splits)

function removeCommentsLoop :: "string \<Rightarrow> nat \<Rightarrow> fault + string" where
  "removeCommentsLoop line prevcmt =
     (if length line < prevcmt then Inl Panic
      else
        (case IndexByte (drop prevcmt line) hash of
           None \<Rightarrow> Inr line
         | Some k \<Rightarrow>
             (let cmt = k + prevcmt in
              (case byteAt line (int cmt - 1) of
                 Inl f \<Rightarrow> Inl f
               | Inr b \<Rightarrow>
                   if b = backslash
                   then removeCommentsLoop (take (cmt - 1) line @ drop cmt line) cmt
                   else Inr (take cmt line)))))"
  by pat_completeness auto
termination
proof (relation "measure (\<lambda>(line, prevcmt). length line)")
  fix line :: string and prevcmt k cmt :: nat and b :: char
  assume le: "\<not> length line < prevcmt"
    and idx: "IndexByte (drop prevcmt line) hash = Some k"
    and cmt: "cmt = k + prevcmt"
    and at: "byteAt line (int cmt - 1) = Inr b"
  from idx have "k < length (drop prevcmt line)"
    by (rule IndexByte_less)
  with le cmt have "cmt < length line"
    by simp
  moreover from at have "0 < cmt"
    by (auto simp: byteAt_def split: if_splits)
  ultimately show "((take (cmt - 1) line @ drop cmt line, cmt), (line, prevcmt))
      \<in> measure (\<lambda>(line, prevcmt). length line)"
    by simp
qed simp

declare removeCommentsLoop.simps [simp del]

definition removeComments :: "string \<Rightarrow> fault + string" where
  "removeComments line = removeCommentsLoop line 0"

subsection \<open>collapseWhitespace\<close>

text \<open>
  The \<^verbatim>\<open>range\<close> loop of \<^verbatim>\<open>collapseWhitespace\<close>: \<open>i\<close> is the byte offset of the rune
  \<open>char\<close>, and \<open>nl\<close> and \<open>prevSpace\<close> are the loop's variables. \<^verbatim>\<open>line[i-1]\<close> is
  read in the first case for every backslash, at \<open>i = 0\<close> too.
\<close>

function collapseLoop :: "string \<Rightarrow> nat \<Rightarrow> string \<Rightarrow> bool \<Rightarrow> fault + string" where
  "collapseLoop line i nl prevSpace =
     (if length line \<le> i then Inr nl
      else
        (let char = fst (DecodeRune (drop i line));
             next = i + snd (DecodeRune (drop i line)) in
         if char = of_char backslash then
           (case byteAt line (int i - 1) of
              Inl f \<Rightarrow> Inl f
            | Inr b \<Rightarrow>
                collapseLoop line next (if b = backslash then nl @ [backslash] else nl) prevSpace)
         else if IsSpace char then
           (if prevSpace then
              (case byteAt line (int i - 1) of
                 Inl f \<Rightarrow> Inl f
               | Inr b \<Rightarrow>
                   collapseLoop line next
                     (if b = backslash then nl @ runeString (drop i line) else nl) prevSpace)
            else
              collapseLoop line next
                (if int i \<noteq> int (length line) - 1 then nl @ '' '' else nl) True)
         else collapseLoop line next (nl @ runeString (drop i line)) False))"
  by pat_completeness auto
termination
  by (relation "measure (\<lambda>(line, i, nl, prevSpace). length line - i)")
     (auto simp: DecodeRune_width intro!: diff_less_mono2)

declare collapseLoop.simps [simp del]

definition collapseWhitespace :: "string \<Rightarrow> fault + string" where
  "collapseWhitespace line = collapseLoop line 0 [] False"

subsection \<open>readFile\<close>

text \<open>
  A logical line is the pair \<^verbatim>\<open>[]string{number, text}\<close> of the source: the line
  number printed in decimal and the processed text.
\<close>

type_synonym LogicalLine = "string \<times> string"

text \<open>\<^verbatim>\<open>fmt.Sprintf("%d", no)\<close> for a number that is not negative.\<close>

fun Itoa :: "nat \<Rightarrow> string" where
  "Itoa n =
     (if n < 10 then [''0123456789'' ! n] else Itoa (n div 10) @ [''0123456789'' ! (n mod 10)])"

declare Itoa.simps [simp del]

definition isIndented :: "string \<Rightarrow> bool" where
  "isIndented line = (0 < length line \<and> IsSpace (of_char (hd line)))"

text \<open>\<^verbatim>\<open>collapseWhitespace(removeComments(line))\<close>; a panic of either one ends the call.\<close>

definition lineText :: "string \<Rightarrow> fault + string" where
  "lineText line =
     (case removeComments line of Inl f \<Rightarrow> Inl f | Inr r \<Rightarrow> collapseWhitespace r)"

text \<open>
  The body of the scanner loop of \<^verbatim>\<open>readFile\<close> on one raw line. The state is
  \<open>(lines, i, no)\<close>; \<open>rf\<close> is the recursive call of \<^verbatim>\<open>readFile\<close> for a
  \<^verbatim>\<open>source\<close> line. \<^verbatim>\<open>lines[i-1]\<close> panics when \<open>i - 1\<close> is not an index of
  \<open>lines\<close>.
\<close>

definition readLine ::
  "(string \<Rightarrow> fault + LogicalLine list) \<Rightarrow> string \<Rightarrow> LogicalLine list \<times> nat \<times> nat
     \<Rightarrow> fault + LogicalLine list \<times> nat \<times> nat" where
  "readLine rf raw st =
     (case st of
        (lines, i, no0) \<Rightarrow>
          (let no = no0 + 1; line = TrimSpace raw in
           if line = [] \<or> hd line = hash then Inr (lines, i, no)
           else
             (case lineText line of
                Inl f \<Rightarrow> Inl f
              | Inr text \<Rightarrow>
                  if isIndented raw then
                    (if i = 0 then Inl (Failed ''first line can't be indented'')
                     else if i - 1 < length lines then
                       Inr (lines[i - 1 :=
                              (fst (lines ! (i - 1)), snd (lines ! (i - 1)) @ '' '' @ text)],
                            i, no)
                     else Inl Panic)
                  else if HasPrefix text ''source '' then
                    (case rf (drop 7 text) of
                       Inl f \<Rightarrow> Inl f
                     | Inr sourced \<Rightarrow> Inr (lines @ sourced, i + 1, no))
                  else Inr (lines @ [(Itoa no, text)], i + 1, no))))"

fun scanLines ::
  "(string \<Rightarrow> fault + LogicalLine list) \<Rightarrow> string list \<Rightarrow> LogicalLine list \<times> nat \<times> nat
     \<Rightarrow> fault + LogicalLine list \<times> nat \<times> nat" where
  "scanLines rf [] st = Inr st"
| "scanLines rf (raw # rest) st =
     (case readLine rf raw st of Inl f \<Rightarrow> Inl f | Inr st' \<Rightarrow> scanLines rf rest st')"

text \<open>
  The file system is a function from a path to the error of \<^verbatim>\<open>os.Open\<close> or to the
  lines that the scanner yields. The first argument of \<open>readFile\<close> bounds the depth of
  nested \<^verbatim>\<open>source\<close> lines.
\<close>

type_synonym filesystem = "string \<Rightarrow> string + string list"

primrec readFile :: "nat \<Rightarrow> filesystem \<Rightarrow> string \<Rightarrow> fault + LogicalLine list" where
  "readFile 0 fs file = Inl OutOfFuel"
| "readFile (Suc n) fs file =
     (case fs file of
        Inl e \<Rightarrow> Inl (Failed e)
      | Inr raws \<Rightarrow>
          (case scanLines (readFile n fs) raws ([], 0, 0) of
             Inl f \<Rightarrow> Inl f
           | Inr st \<Rightarrow> Inr (fst st)))"

definition noSuchFile :: "string \<Rightarrow> string" where
  "noSuchFile p = ''open '' @ p @ '': no such file or directory''"

subsection \<open>The name resolver\<close>

text \<open>\<^verbatim>\<open>strings.Split(s, " ")\<close>: the pieces between the single spaces; never empty.\<close>

fun Split :: "string \<Rightarrow> string list" where
  "Split [] = [[]]"
| "Split (c # cs) =
     (if c = CHR '' '' then [] # Split cs
      else (case Split cs of w # ws \<Rightarrow> (c # w) # ws | [] \<Rightarrow> [[c]]))"

text \<open>
  \<^verbatim>\<open>strings.Replace(s, old, new, -1)\<close> for a pattern \<open>old\<close> that is not empty, which
  is how the resolver calls it: the occurrences are replaced from left to right, without
  overlap. \<^verbatim>\<open>strings.ToUpper\<close> is given on the ASCII letters, which is what the acronym
  table holds.
\<close>

function Replace :: "string \<Rightarrow> string \<Rightarrow> string \<Rightarrow> string" where
  "Replace s old new =
     (if s = [] \<or> old = [] then s
      else if HasPrefix s old then new @ Replace (drop (length old) s) old new
      else hd s # Replace (tl s) old new)"
  by pat_completeness auto
termination
  by (relation "measure (\<lambda>(s, old, new). length s)") auto

declare Replace.simps [simp del]

definition ToUpper :: "string \<Rightarrow> string" where
  "ToUpper s =
     map (\<lambda>c. case map_of (zip ''abcdefghijklmnopqrstuvwxyz'' ''ABCDEFGHIJKLMNOPQRSTUVWXYZ'') c of
                 Some u \<Rightarrow> u
               | None \<Rightarrow> c) s"

definition acr :: "string list" where
  "acr = [''Api'', ''Ascii'', ''Cpu'', ''Css'', ''Dns'', ''Eof'', ''Guid'', ''Html'',
          ''Https'', ''Http'', ''Id'', ''Ip'', ''Json'', ''Lhs'', ''Qps'', ''Ram'', ''Rhs'',
          ''Rpc'', ''Sla'', ''Smtp'', ''Sql'', ''Ssh'', ''Tcp'', ''Tls'', ''Ttl'', ''Udp'',
          ''Ui'', ''Uid'', ''Uuid'', ''Uri'', ''Url'', ''Utf8'', ''Vm'', ''Xml'', ''Xsrf'',
          ''Xss'']"

definition upperAcronyms :: "string \<Rightarrow> string" where
  "upperAcronyms fieldName = foldl (\<lambda>name a. Replace name a (ToUpper a)) fieldName acr"

text \<open>
  The package \<^verbatim>\<open>inflect\<close> is not part of the sources; its two functions that the
  resolver calls are parameters of the model.
\<close>

record inflect =
  Camelize :: "string \<Rightarrow> string"
  Pluralize :: "string \<Rightarrow> string"

text \<open>
  An \<^verbatim>\<open>interface{}\<close> value: \<^verbatim>\<open>nil\<close>, a \<^verbatim>\<open>[]string\<close>, a \<^verbatim>\<open>string\<close>, or a value of
  another type, given by the name of its type and its printed form.
\<close>

datatype val = Nil | Strings "string list" | Str string | Other string string

fun typeString :: "val \<Rightarrow> string" where
  "typeString Nil = ''<nil>''"
| "typeString (Strings ts) = ''[]string''"
| "typeString (Str s) = ''string''"
| "typeString (Other ty s) = ty"

text \<open>
  The destination struct as reflection sees it: a field name is mapped to the name of the
  field's type and the field's value. \<^verbatim>\<open>FieldByName(n).CanAddr()\<close> holds exactly for
  the fields that exist.
\<close>

type_synonym config = "string \<rightharpoonup> string \<times> val"

definition fieldNameFromKey :: "inflect \<Rightarrow> string \<Rightarrow> config \<Rightarrow> string + string" where
  "fieldNameFromKey infl key values =
     (let fieldName = upperAcronyms (Camelize infl key) in
      if values fieldName \<noteq> None then Inr fieldName
      else
        (let fieldNamePlural = Pluralize infl fieldName in
         if values fieldNamePlural \<noteq> None then Inr fieldNamePlural
         else Inl (''unknown option (field '' @ fieldName @ '' or '' @ fieldNamePlural
                     @ '' is missing)'')))"

subsection \<open>Custom handlers and the type registry\<close>

text \<open>
  A custom handler gets the values and may change the struct it has captured; it returns
  its error, if any. \<open>None\<close> for the handlers is the \<^verbatim>\<open>nil\<close> map.
\<close>

type_synonym Handler = "string list \<Rightarrow> config \<Rightarrow> string option \<times> config"

type_synonym Handlers = "(string \<rightharpoonup> Handler) option"

type_synonym TypeHandler = "string list \<Rightarrow> string + val"

type_synonym registry = "string \<rightharpoonup> TypeHandler list"

definition RegisterType :: "registry \<Rightarrow> string \<Rightarrow> TypeHandler list \<Rightarrow> registry" where
  "RegisterType typeHandlers typeName fun = typeHandlers(typeName \<mapsto> fun)"

definition setFromHandler ::
  "string \<Rightarrow> string list \<Rightarrow> Handlers \<Rightarrow> config \<Rightarrow> bool \<times> string option \<times> config" where
  "setFromHandler fieldName values handlers c =
     (case handlers of
        None \<Rightarrow> (False, None, c)
      | Some hs \<Rightarrow>
          (case hs fieldName of
             None \<Rightarrow> (False, None, c)
           | Some handler \<Rightarrow>
               (case handler values c of
                  (Some err, c') \<Rightarrow> (True, Some (err @ '' (from handler)''), c')
                | (None, c') \<Rightarrow> (True, None, c'))))"

text \<open>
  The loop of \<^verbatim>\<open>setFromTypeHandler\<close>: every handler is called on \<open>value\<close>, and
  \<open>v\<close> is the result of the last call.
\<close>

fun runHandlers :: "TypeHandler list \<Rightarrow> string list \<Rightarrow> val \<Rightarrow> string + val" where
  "runHandlers [] value v = Inr v"
| "runHandlers (h # hs) value v =
     (case h value of Inl err \<Rightarrow> Inl err | Inr v' \<Rightarrow> runHandlers hs value v')"

text \<open>
  \<^verbatim>\<open>field.Set(reflect.ValueOf(v))\<close> panics when \<open>v\<close> is \<^verbatim>\<open>nil\<close> or is not
  assignable to the field; a value is taken to be assignable when its type has the name
  of the field's type.
\<close>

definition fieldSet :: "string \<times> val \<Rightarrow> val \<Rightarrow> fault + string \<times> val" where
  "fieldSet field v =
     (if v \<noteq> Nil \<and> typeString v = fst field then Inr (fst field, v) else Inl Panic)"

definition setFromTypeHandler ::
  "registry \<Rightarrow> string \<times> val \<Rightarrow> string list \<Rightarrow> fault + bool \<times> string option \<times> (string \<times> val)" where
  "setFromTypeHandler typeHandlers field value =
     (case typeHandlers (fst field) of
        None \<Rightarrow> Inr (False, None, field)
      | Some handler \<Rightarrow>
          (case runHandlers handler value Nil of
             Inl err \<Rightarrow> Inr (True, Some err, field)
           | Inr v \<Rightarrow>
               (case fieldSet field v of
                  Inl f \<Rightarrow> Inl f
                | Inr field' \<Rightarrow> Inr (True, None, field'))))"

definition OneValue :: TypeHandler where
  "OneValue v = (if length v \<noteq> 1 then Inl ''must have exactly one value'' else Inr (Strings v))"

definition NValues :: "int \<Rightarrow> int \<Rightarrow> TypeHandler" where
  "NValues mn mx v =
     (if mn > 0 \<and> int (length v) < mn then
        Inl (''must have more than '' @ Itoa (nat mn) @ '' values (has: ''
               @ Itoa (length v) @ '')'')
      else if mx > 0 \<and> int (length v) > mx then
        Inl (''must have fewer than '' @ Itoa (nat mx) @ '' values (has: ''
               @ Itoa (length v) @ '')'')
      else Inr (Strings v))"

subsection \<open>Parse\<close>

definition fmterr :: "string \<Rightarrow> string \<Rightarrow> string \<Rightarrow> string \<Rightarrow> string" where
  "fmterr file line key err = file @ '' line '' @ line @ '': error parsing '' @ key @ '': '' @ err"

text \<open>
  The body of the loop of \<^verbatim>\<open>Parse\<close> on one logical line: \<open>(None, c')\<close> is
  \<^verbatim>\<open>continue\<close> with the struct \<open>c'\<close>, and \<open>(Some f, c')\<close> ends \<^verbatim>\<open>Parse\<close> with
  \<open>f\<close> and leaves the struct as \<open>c'\<close>.
\<close>

definition parseLine ::
  "inflect \<Rightarrow> registry \<Rightarrow> string \<Rightarrow> Handlers \<Rightarrow> LogicalLine \<Rightarrow> config \<Rightarrow> fault option \<times> config"
  where
  "parseLine infl typeHandlers file handlers line c =
     (let v = Split (snd line) in
      (case fieldNameFromKey infl (hd v) c of
         Inl err \<Rightarrow> (Some (Failed (fmterr file (fst line) (hd v) err)), c)
       | Inr fieldName \<Rightarrow>
           (case setFromHandler fieldName (tl v) handlers c of
              (True, Some err, c') \<Rightarrow> (Some (Failed (fmterr file (fst line) (hd v) err)), c')
            | (True, None, c') \<Rightarrow> (None, c')
            | (False, _, c') \<Rightarrow>
                (case c' fieldName of
                   None \<Rightarrow> (Some Panic, c')
                 | Some field \<Rightarrow>
                     (case setFromTypeHandler typeHandlers field (tl v) of
                        Inl f \<Rightarrow> (Some f, c')
                      | Inr (True, Some err, field') \<Rightarrow>
                          (Some (Failed (fmterr file (fst line) (hd v) err)),
                           c'(fieldName \<mapsto> field'))
                      | Inr (True, None, field') \<Rightarrow> (None, c'(fieldName \<mapsto> field'))
                      | Inr (False, _, field') \<Rightarrow>
                          (Some (Failed (fmterr file (fst line) (hd v)
                             (''don't know how to set fields of the type '' @ fst field))),
                           c'))))))"

fun parseLines ::
  "inflect \<Rightarrow> registry \<Rightarrow> string \<Rightarrow> Handlers \<Rightarrow> LogicalLine list \<Rightarrow> config
     \<Rightarrow> fault option \<times> config" where
  "parseLines infl typeHandlers file handlers [] c = (None, c)"
| "parseLines infl typeHandlers file handlers (line # rest) c =
     (case parseLine infl typeHandlers file handlers line c of
        (Some f, c') \<Rightarrow> (Some f, c')
      | (None, c') \<Rightarrow> parseLines infl typeHandlers file handlers rest c')"

text \<open>
  \<^verbatim>\<open>Parse\<close>, with the process-wide registry, the file system and the nesting bound of
  \<open>readFile\<close> as arguments. The result is the returned error (\<open>None\<close> for \<^verbatim>\<open>nil\<close>)
  and the struct as \<^verbatim>\<open>Parse\<close> leaves it.
\<close>

definition Parse ::
  "inflect \<Rightarrow> registry \<Rightarrow> nat \<Rightarrow> filesystem \<Rightarrow> config \<Rightarrow> string \<Rightarrow> Handlers
     \<Rightarrow> fault option \<times> config" where
  "Parse infl typeHandlers fuel fs c file handlers =
     (case readFile fuel fs file of
        Inl f \<Rightarrow> (Some f, c)
      | Inr lines \<Rightarrow> parseLines infl typeHandlers file handlers lines c)"

subsection \<open>Inputs used below\<close>

text \<open>
  Modelled from the spec: the package \<^verbatim>\<open>inflect\<close> (\<^verbatim>\<open>Camelize\<close>, \<^verbatim>\<open>Pluralize\<close>) is
  not among the sources. The specification has: camel-case the raw key (tokens separated
  by hyphen, underscore or space are concatenated, each token capitalized), and: compute
  the English plural form. The plural is given for the nouns that are used below
  (\<open>Record\<close>, \<open>Records\<close>, \<open>Bogus\<close>, \<open>Bool\<close>): an \<open>s\<close> is added, and a word
  that ends in \<open>s\<close> is left as it is. The other rules of the English plural
  (\<open>Box\<close>, \<open>Boxes\<close>) are not given, and the general statements below take the two
  functions as parameters.
\<close>

fun camelizeFrom :: "bool \<Rightarrow> string \<Rightarrow> string" where
  "camelizeFrom up [] = []"
| "camelizeFrom up (c # cs) =
     (if c = CHR ''-'' \<or> c = CHR ''_'' \<or> c = CHR '' '' then camelizeFrom True cs
      else (if up then ToUpper [c] else [c]) @ camelizeFrom False cs)"

definition specCamelize :: "string \<Rightarrow> string" where
  "specCamelize key = camelizeFrom True key"

definition specPluralize :: "string \<Rightarrow> string" where
  "specPluralize w = (if w \<noteq> [] \<and> last w = CHR ''s'' then w else w @ ''s'')"

definition specInflect :: inflect where
  "specInflect = \<lparr>Camelize = specCamelize, Pluralize = specPluralize\<rparr>"

text \<open>A file that sources an empty file and goes on with an indented line.\<close>

definition fsEmptySource :: filesystem where
  "fsEmptySource p =
     (if p = ''main'' then Inr [''source empty'', '' x'']
      else if p = ''empty'' then Inr []
      else Inl (noSuchFile p))"

text \<open>A file that sources a file of two lines and goes on with an indented line.\<close>

definition fsTwoLineSource :: filesystem where
  "fsTwoLineSource p =
     (if p = ''main'' then Inr [''source inc'', '' z'']
      else if p = ''inc'' then Inr [''a 1'', ''b 2'']
      else Inl (noSuchFile p))"

text \<open>No file at all.\<close>

definition fsNone :: filesystem where
  "fsNone p = Inl (noSuchFile p)"

text \<open>A converter that normalizes the values to the first one.\<close>

definition keepFirst :: TypeHandler where
  "keepFirst v = Inr (Strings (take 1 v))"

text \<open>A file that sources a file that does not exist, and a file that starts indented.\<close>

definition fsMissingSource :: filesystem where
  "fsMissingSource p = (if p = ''main'' then Inr [''source missing''] else Inl (noSuchFile p))"

definition fsIndented :: filesystem where
  "fsIndented p = (if p = ''main'' then Inr ['' x''] else Inl (noSuchFile p))"

text \<open>A file with the key \<open>bogus\<close>, and one with the key \<open>bool\<close> of the package's example.\<close>

definition fsBogus :: filesystem where
  "fsBogus p = (if p = ''main'' then Inr [''bogus value''] else Inl (noSuchFile p))"

definition fsBool :: filesystem where
  "fsBool p = (if p = ''main'' then Inr [''bool yup'', ''bool nope''] else Inl (noSuchFile p))"

text \<open>
  A custom handler for a field \<open>Bool\<close> of type \<^verbatim>\<open>bool\<close>, after the one of
  \<^verbatim>\<open>ExampleHandlers\<close>: the first token \<open>yup\<close> sets the field, and every other token
  list is the error \<open>not a bool\<close>. The handler of the example reads \<^verbatim>\<open>line[0]\<close> and
  panics when there is no token; this one returns its error there, and it is applied
  below to lines that have a token after the key.
\<close>

definition boolHandler :: Handler where
  "boolHandler line c =
     (if line \<noteq> [] \<and> hd line = ''yup'' then (None, c(''Bool'' \<mapsto> (''bool'', Other ''bool'' ''true'')))
      else (Some ''not a bool'', c))"

definition boolConfig :: config where
  "boolConfig = [''Bool'' \<mapsto> (''bool'', Other ''bool'' ''false'')]"

subsection \<open>Comment removal as the specification words it\<close>

text \<open>
  The specification of comment removal, read from left to right: an unescaped \<open>#\<close>
  ends the text, the two characters \<open>\#\<close> stand for the character \<open>#\<close>, and every
  other character stands for itself.
\<close>

fun stripCommentSpec :: "string \<Rightarrow> string" where
  "stripCommentSpec [] = []"
| "stripCommentSpec [c] = (if c = hash then [] else [c])"
| "stripCommentSpec (c # d # cs) =
     (if c = hash then []
      else if c = backslash \<and> d = hash then hash # stripCommentSpec cs
      else c # stripCommentSpec (d # cs))"

text \<open>
  A file that sources a file of two lines, goes on with a line of its own and continues
  that line on an indented line; and the same file with the two lines of the sourced
  file written in the place of the \<^verbatim>\<open>source\<close> line.
\<close>

definition fsSourceThenLine :: filesystem where
  "fsSourceThenLine p =
     (if p = ''main'' then Inr [''source inc'', ''k 0'', '' z'']
      else if p = ''inc'' then Inr [''a 1'', ''b 2'']
      else Inl (noSuchFile p))"

definition fsSplicedByHand :: filesystem where
  "fsSplicedByHand p =
     (if p = ''main'' then Inr [''a 1'', ''b 2'', ''k 0'', '' z'']
      else Inl (noSuchFile p))"

text \<open>
  A file of one line that starts with a backslash and holds an escaped \<open>#\<close>, and a
  file whose line holds the escaped \<open>#\<close> only.
\<close>

definition fsBackslashEscape :: filesystem where
  "fsBackslashEscape p =
     (if p = ''main'' then Inr [backslash # ''x '' @ backslash # ''# y'']
      else Inl (noSuchFile p))"

definition fsEscape :: filesystem where
  "fsEscape p =
     (if p = ''main'' then Inr [''x '' @ backslash # ''# y'']
      else Inl (noSuchFile p))"

section \<open>Properties of the parser\<close>

lemmas line_eval =
  readLine_def lineText_def TrimSpace_def lastSpaceWidth_def IsSpace_def isIndented_def
  removeComments_def removeCommentsLoop.simps collapseWhitespace_def collapseLoop.simps
  byteAt_def runeString_def RuneError_def HasPrefix_def Let_def trimLeft.simps trimRight.simps
  Itoa.simps

subsection \<open>Runes\<close>

lemma DecodeRune_low:
  "(of_char c :: nat) < 128 \<Longrightarrow> DecodeRune (c # s) = (of_char c, 1)"
  by simp

lemma DecodeRune_two:
  assumes "194 \<le> (of_char c :: nat)" and "(of_char c :: nat) < 224"
  shows "DecodeRune (c # s)
     = (case s of
          c1 # _ \<Rightarrow>
            if isCont c1 then (((of_char c :: nat) mod 32) * 64 + (of_char c1 :: nat) mod 64, 2)
            else (RuneError, 1)
        | [] \<Rightarrow> (RuneError, 1))"
  using assms by (simp add: Let_def)

lemma DecodeRune_three:
  assumes "224 \<le> (of_char c :: nat)" and "(of_char c :: nat) < 240"
  shows "DecodeRune (c # s)
     = (case s of
          c1 # c2 # _ \<Rightarrow>
            if (if (of_char c :: nat) = 0xE0 then 0xA0 else 0x80) \<le> (of_char c1 :: nat)
               \<and> (of_char c1 :: nat) \<le> (if (of_char c :: nat) = 0xED then 0x9F else 0xBF)
               \<and> isCont c2
            then (((of_char c :: nat) mod 16) * 4096 + ((of_char c1 :: nat) mod 64) * 64
                   + (of_char c2 :: nat) mod 64, 3)
            else (RuneError, 1)
        | _ \<Rightarrow> (RuneError, 1))"
  using assms by (simp add: Let_def)

lemma DecodeRune_four:
  assumes "240 \<le> (of_char c :: nat)" and "(of_char c :: nat) \<le> 244"
  shows "DecodeRune (c # s)
     = (case s of
          c1 # c2 # c3 # _ \<Rightarrow>
            if (if (of_char c :: nat) = 0xF0 then 0x90 else 0x80) \<le> (of_char c1 :: nat)
               \<and> (of_char c1 :: nat) \<le> (if (of_char c :: nat) = 0xF4 then 0x8F else 0xBF)
               \<and> isCont c2 \<and> isCont c3
            then (((of_char c :: nat) mod 8) * 262144 + ((of_char c1 :: nat) mod 64) * 4096
                   + ((of_char c2 :: nat) mod 64) * 64 + (of_char c3 :: nat) mod 64, 4)
            else (RuneError, 1)
        | _ \<Rightarrow> (RuneError, 1))"
  using assms by (simp add: Let_def)

lemma DecodeRune_invalid:
  assumes "128 \<le> (of_char c :: nat)" and "(of_char c :: nat) < 194 \<or> 244 < (of_char c :: nat)"
  shows "DecodeRune (c # s) = (RuneError, 1)"
  using assms by (auto simp: Let_def)

lemma mod_in_block:
  fixes x :: nat
  assumes "a * m \<le> x" and "x < a * m + m"
  shows "x mod m = x - a * m"
proof -
  from assms(1) obtain y where y: "x = a * m + y"
    by (metis le_Suc_ex)
  with assms(2) have "y < m"
    by simp
  then show ?thesis
    by (simp add: y)
qed

lemma DecodeRune_high:
  assumes high: "\<not> (of_char c :: nat) < 128" and dec: "DecodeRune (c # s) = (r, w)"
  shows "128 \<le> r \<and> (\<forall>x \<in> set (take w (c # s)). 128 \<le> (of_char x :: nat))"
proof -
  let ?b = "of_char c :: nat"
  have err: ?thesis if "r = RuneError" "w = 1"
    using that high by (simp add: RuneError_def)
  consider (invalid) "?b < 194 \<or> 244 < ?b" | (two) "194 \<le> ?b" "?b < 224"
    | (three) "224 \<le> ?b" "?b < 240" | (four) "240 \<le> ?b" "?b \<le> 244"
    by linarith
  then show ?thesis
  proof cases
    case invalid
    with high dec DecodeRune_invalid [of c s] show ?thesis
      by (intro err) (simp_all del: DecodeRune.simps)
  next
    case two
    show ?thesis
    proof (cases s)
      case Nil
      with dec two show ?thesis
        by (intro err) (simp_all del: DecodeRune.simps add: DecodeRune_two)
    next
      case (Cons c1 s')
      show ?thesis
      proof (cases "isCont c1")
        case False
        with dec two Cons show ?thesis
          by (intro err) (simp_all del: DecodeRune.simps add: DecodeRune_two)
      next
        case True
        with dec two Cons have r: "r = (?b mod 32) * 64 + (of_char c1 :: nat) mod 64" and w: "w = 2"
          by (simp_all del: DecodeRune.simps add: DecodeRune_two)
        from two have "2 \<le> ?b mod 32"
          using mod_in_block [of 6 32 ?b] by simp
        then have "128 \<le> r" using r by simp
        with True high Cons w show ?thesis by (simp add: isCont_def)
      qed
    qed
  next
    case three
    let ?ok = "\<lambda>c1 c2. (if ?b = 0xE0 then 0xA0 else 0x80) \<le> (of_char c1 :: nat)
               \<and> (of_char c1 :: nat) \<le> (if ?b = 0xED then 0x9F else 0xBF) \<and> isCont c2"
    note d3 = DecodeRune_three [OF three, of s]
    show ?thesis
    proof (cases s)
      case Nil
      with dec d3 show ?thesis by (intro err) (simp_all del: DecodeRune.simps)
    next
      case s1: (Cons c1 s1)
      show ?thesis
      proof (cases s1)
        case Nil
        with dec d3 s1 show ?thesis by (intro err) (simp_all del: DecodeRune.simps)
      next
        case s2: (Cons c2 s')
        show ?thesis
        proof (cases "?ok c1 c2")
          case False
          with dec d3 s1 s2 show ?thesis by (intro err) (simp_all del: DecodeRune.simps)
        next
          case ok: True
          with dec d3 s1 s2 have r: "r = (?b mod 16) * 4096 + ((of_char c1 :: nat) mod 64) * 64
                   + (of_char c2 :: nat) mod 64" and w: "w = 3"
            by (simp_all del: DecodeRune.simps)
          from ok have c1: "128 \<le> (of_char c1 :: nat)" "(of_char c1 :: nat) \<le> 191"
            by (auto split: if_splits)
          have "2048 \<le> r"
          proof (cases "?b = 224")
            case True
            with ok have "160 \<le> (of_char c1 :: nat)" by simp
            with c1(2) have "32 \<le> (of_char c1 :: nat) mod 64"
              using mod_in_block [of 2 64 "of_char c1"] by simp
            then show ?thesis using r by simp
          next
            case False
            with three have "1 \<le> ?b mod 16"
              using mod_in_block [of 14 16 ?b] by simp
            then show ?thesis using r by simp
          qed
          with ok c1 high s1 s2 w show ?thesis by (simp add: isCont_def)
        qed
      qed
    qed
  next
    case four
    let ?ok = "\<lambda>c1 c2 c3. (if ?b = 0xF0 then 0x90 else 0x80) \<le> (of_char c1 :: nat)
               \<and> (of_char c1 :: nat) \<le> (if ?b = 0xF4 then 0x8F else 0xBF)
               \<and> isCont c2 \<and> isCont c3"
    note d4 = DecodeRune_four [OF four, of s]
    show ?thesis
    proof (cases s)
      case Nil
      with dec d4 show ?thesis by (intro err) (simp_all del: DecodeRune.simps)
    next
      case s1: (Cons c1 s1)
      show ?thesis
      proof (cases s1)
        case Nil
        with dec d4 s1 show ?thesis by (intro err) (simp_all del: DecodeRune.simps)
      next
        case s2: (Cons c2 s2)
        show ?thesis
        proof (cases s2)
          case Nil
          with dec d4 s1 s2 show ?thesis by (intro err) (simp_all del: DecodeRune.simps)
        next
          case s3: (Cons c3 s')
          show ?thesis
          proof (cases "?ok c1 c2 c3")
            case False
            with dec d4 s1 s2 s3 show ?thesis by (intro err) (simp_all del: DecodeRune.simps)
          next
            case ok: True
            with dec d4 s1 s2 s3 have r: "r = (?b mod 8) * 262144 + ((of_char c1 :: nat) mod 64) * 4096
                   + ((of_char c2 :: nat) mod 64) * 64 + (of_char c3 :: nat) mod 64" and w: "w = 4"
              by (simp_all del: DecodeRune.simps)
            from ok have c1: "128 \<le> (of_char c1 :: nat)" "(of_char c1 :: nat) \<le> 191"
              by (auto split: if_splits)
            have "65536 \<le> r"
            proof (cases "?b = 240")
              case True
              with ok have "144 \<le> (of_char c1 :: nat)" by simp
              with c1(2) have "16 \<le> (of_char c1 :: nat) mod 64"
                using mod_in_block [of 2 64 "of_char c1"] by simp
              then show ?thesis using r by simp
            next
              case False
              with four have "1 \<le> ?b mod 8"
                using mod_in_block [of 30 8 ?b] by simp
              then show ?thesis using r by simp
            qed
            with ok c1 high s1 s2 s3 w show ?thesis by (simp add: isCont_def)
          qed
        qed
      qed
    qed
  qed
qed

lemma DecodeRune_backslash:
  assumes "fst (DecodeRune (c # s)) = of_char backslash"
  shows "c = backslash"
proof (cases "(of_char c :: nat) < 128")
  case True
  with assms have "(of_char c :: nat) = of_char backslash"
    by (simp add: DecodeRune_low)
  then show ?thesis
    by (simp only: of_char_eq_iff)
next
  case False
  obtain r w where d: "DecodeRune (c # s) = (r, w)"
    by (cases "DecodeRune (c # s)")
  from DecodeRune_high [OF False d] have "128 \<le> r"
    by simp
  with assms d show ?thesis
    by simp
qed

subsection \<open>Whitespace collapsing\<close>

lemma collapseLoop_returns:
  "0 < i \<Longrightarrow> \<exists>t. collapseLoop line i nl ps = Inr t"
proof (induction "length line - i" arbitrary: i nl ps rule: less_induct)
  case less
  show ?case
  proof (cases "length line \<le> i")
    case True
    then show ?thesis
      by (simp add: collapseLoop.simps [of line i])
  next
    case False
    define w where "w = snd (DecodeRune (drop i line))"
    from False have "0 < w"
      unfolding w_def by (intro DecodeRune_width) simp
    then have IH: "\<exists>t. collapseLoop line (i + w) nl' ps' = Inr t" for nl' ps'
      using False by (intro less.hyps) simp_all
    have at: "byteAt line (int i - 1) = Inr (line ! (i - 1))"
      using False less.prems by (simp add: byteAt_def nat_diff_distrib')
    show ?thesis
      using IH False
      by (subst collapseLoop.simps) (simp add: Let_def at w_def [symmetric])
  qed
qed

lemma collapseWhitespace_returns:
  assumes "line = [] \<or> hd line \<noteq> backslash"
  shows "\<exists>t. collapseWhitespace line = Inr t"
proof (cases line)
  case Nil
  then show ?thesis
    by (simp add: collapseWhitespace_def collapseLoop.simps)
next
  case (Cons c s)
  with assms have nb: "fst (DecodeRune line) \<noteq> of_char backslash"
    using DecodeRune_backslash [of c s] by auto
  define w where "w = snd (DecodeRune line)"
  have "0 < w"
    unfolding w_def using Cons by (intro DecodeRune_width) simp
  then have R: "\<exists>t. collapseLoop line (0 + w) nl' ps' = Inr t" for nl' ps'
    by (intro collapseLoop_returns) simp
  have ne: "\<not> length line \<le> 0"
    using Cons by simp
  show ?thesis
    unfolding collapseWhitespace_def using R nb ne
    by (subst collapseLoop.simps) (simp add: Let_def w_def [symmetric])
qed

lemma rune_step_hash:
  assumes "s \<noteq> []"
  shows "filter ((=) hash) (runeString s) = filter ((=) hash) (take (snd (DecodeRune s)) s)
    \<and> (fst (DecodeRune s) = of_char backslash \<or> IsSpace (fst (DecodeRune s)) \<longrightarrow>
         filter ((=) hash) (take (snd (DecodeRune s)) s) = [])"
proof -
  from assms obtain c s' where s: "s = c # s'"
    by (cases s) auto
  show ?thesis
  proof (cases "(of_char c :: nat) < 128")
    case True
    then have d: "DecodeRune s = (of_char c, 1)"
      unfolding s by (rule DecodeRune_low)
    have "runeString s = [c]"
      using True by (simp add: runeString_def d RuneError_def) (simp add: s)
    moreover have "take (snd (DecodeRune s)) s = [c]"
      by (simp add: d) (simp add: s)
    moreover have "c \<noteq> hash"
      if "fst (DecodeRune s) = of_char backslash \<or> IsSpace (fst (DecodeRune s))"
      using that by (auto simp: d IsSpace_def)
    ultimately show ?thesis
      by auto
  next
    case False
    obtain r w where d: "DecodeRune s = (r, w)"
      by (cases "DecodeRune s")
    from DecodeRune_high [OF False d [unfolded s]]
    have hi: "\<forall>x \<in> set (take w s). 128 \<le> (of_char x :: nat)"
      by (simp add: s)
    have "hash \<notin> set (take w s)"
    proof
      assume "hash \<in> set (take w s)"
      with hi have "128 \<le> (of_char hash :: nat)"
        by blast
      then show False by simp
    qed
    then have none: "filter ((=) hash) (take w s) = []"
      by (auto simp: filter_empty_conv)
    have "runeString s = [CHR 0xEF, CHR 0xBF, CHR 0xBD] \<or> runeString s = take w s"
      by (simp add: runeString_def d)
    with none show ?thesis
      by (auto simp: d)
  qed
qed

lemma collapseLoop_hashes:
  "collapseLoop line i nl ps = Inr t \<Longrightarrow>
   filter ((=) hash) t = filter ((=) hash) nl @ filter ((=) hash) (drop i line)"
proof (induction "length line - i" arbitrary: i nl ps rule: less_induct)
  case less
  show ?case
  proof (cases "length line \<le> i")
    case True
    with less.prems show ?thesis
      by (simp add: collapseLoop.simps [of line i])
  next
    case False
    define s where "s = drop i line"
    define r where "r = fst (DecodeRune s)"
    define w where "w = snd (DecodeRune s)"
    from False have ne: "s \<noteq> []"
      by (simp add: s_def)
    then have wpos: "0 < w"
      unfolding w_def by (rule DecodeRune_width)
    have A: "filter ((=) hash) (runeString s) = filter ((=) hash) (take w s)"
      and B: "r = of_char backslash \<or> IsSpace r \<Longrightarrow> filter ((=) hash) (take w s) = []"
      using rune_step_hash [OF ne] by (simp_all add: r_def w_def)
    have "s = take w s @ drop w s"
      by simp
    also have "drop w s = drop (i + w) line"
      by (simp add: s_def add.commute)
    finally have "filter ((=) hash) s
        = filter ((=) hash) (take w s @ drop (i + w) line)"
      by (rule arg_cong)
    then have C: "filter ((=) hash) (drop i line)
        = filter ((=) hash) (take w s) @ filter ((=) hash) (drop (i + w) line)"
      unfolding filter_append by (simp only: s_def [symmetric])
    have IH: "filter ((=) hash) t = filter ((=) hash) nl' @ filter ((=) hash) (drop (i + w) line)"
      if "collapseLoop line (i + w) nl' ps' = Inr t" for nl' ps'
      using that False wpos by (intro less.hyps) simp_all
    note step = collapseLoop.simps [of line i nl ps, folded s_def, folded r_def w_def]
    consider (bs) "r = of_char backslash"
      | (sp) "r \<noteq> of_char backslash" "IsSpace r"
      | (other) "r \<noteq> of_char backslash" "\<not> IsSpace r"
      by blast
    then show ?thesis
    proof cases
      case bs
      with less.prems False obtain nl' where
        "collapseLoop line (i + w) nl' ps = Inr t" "nl' = nl \<or> nl' = nl @ [backslash]"
        by (auto simp: step Let_def split: sum.splits if_splits)
      with IH [of nl' ps] B bs C show ?thesis
        by auto
    next
      case sp
      with less.prems False obtain nl' ps' where
        "collapseLoop line (i + w) nl' ps' = Inr t"
        "nl' = nl \<or> nl' = nl @ runeString s \<or> nl' = nl @ '' ''"
        by (auto simp: step Let_def split: sum.splits if_splits)
      with IH [of nl' ps'] A B sp C show ?thesis
        by auto
    next
      case other
      with less.prems False have "collapseLoop line (i + w) (nl @ runeString s) False = Inr t"
        by (auto simp: step Let_def split: sum.splits if_splits)
      with IH [of "nl @ runeString s" False] A C show ?thesis
        by auto
    qed
  qed
qed

lemma collapseWhitespace_hashes:
  "collapseWhitespace s = Inr t \<Longrightarrow> filter ((=) hash) t = filter ((=) hash) s"
  using collapseLoop_hashes [of s 0 "[]" False t] by (simp add: collapseWhitespace_def)

text \<open>
  Claim C10. \<^verbatim>\<open>collapseWhitespace\<close> is not total on the strings that \<^verbatim>\<open>readFile\<close>
  passes to it: on every line that starts with a backslash the first iteration reads
  \<^verbatim>\<open>line[i-1]\<close> at \<open>i = 0\<close> and panics. The line \<^verbatim>\<open>\a\<close> is such a line: it
  is left as it is by \<^verbatim>\<open>removeComments\<close>, and a file that consists of this line
  makes \<^verbatim>\<open>readFile\<close> panic, whatever its name and the nesting bound. These are the
  only lines without a result: on every other line \<^verbatim>\<open>collapseWhitespace\<close> returns.
\<close>

theorem collapseWhitespace_leading_backslash_panics:
  "collapseWhitespace (backslash # rest) = Inl Panic
   \<and> removeComments [backslash, CHR ''a''] = Inr [backslash, CHR ''a'']
   \<and> readFile (Suc n) (\<lambda>p. Inr [[backslash, CHR ''a'']]) file = Inl Panic
   \<and> ((\<exists>t. collapseWhitespace line = Inr t) \<longleftrightarrow> line = [] \<or> hd line \<noteq> backslash)"
proof -
  have p: "collapseWhitespace (backslash # s) = Inl Panic" for s
    by (simp add: collapseWhitespace_def collapseLoop.simps byteAt_def)
  have "(\<exists>t. collapseWhitespace line = Inr t) \<longleftrightarrow> line = [] \<or> hd line \<noteq> backslash"
  proof
    assume "\<exists>t. collapseWhitespace line = Inr t"
    then show "line = [] \<or> hd line \<noteq> backslash"
      using p [of "tl line"] by (cases line) auto
  next
    assume "line = [] \<or> hd line \<noteq> backslash"
    then show "\<exists>t. collapseWhitespace line = Inr t"
      by (rule collapseWhitespace_returns)
  qed
  moreover have "removeComments [backslash, CHR ''a''] = Inr [backslash, CHR ''a'']"
    by (simp add: removeComments_def removeCommentsLoop.simps)
  moreover have "readFile (Suc n) (\<lambda>p. Inr [[backslash, CHR ''a'']]) file = Inl Panic"
    by (simp add: line_eval)
  ultimately show ?thesis
    using p by blast
qed

theorem collapseWhitespace_leading_backslash_panics_witness:
  "collapseWhitespace [backslash, CHR ''a''] = Inl Panic
   \<and> (\<exists>t. collapseWhitespace ''key  value'' = Inr t)
   \<and> \<not> (\<exists>t. collapseWhitespace [backslash, CHR ''a''] = Inr t)"
  using collapseWhitespace_leading_backslash_panics [of "[CHR ''a'']" 0 "[]" "''key  value''"]
    collapseWhitespace_leading_backslash_panics [of "[CHR ''a'']" 0 "[]" "[backslash, CHR ''a'']"]
  by simp

subsection \<open>The converter chain\<close>

lemma runHandlers_error_here:
  "\<forall>h \<in> set hs1. \<not> isl (h value) \<Longrightarrow> h value = Inl e
     \<Longrightarrow> runHandlers (hs1 @ h # hs2) value v = Inl e"
  by (induction hs1 arbitrary: v) (auto split: sum.splits)

lemma runHandlers_last:
  "runHandlers hs value v = Inr v' \<Longrightarrow> hs \<noteq> [] \<Longrightarrow> last hs value = Inr v'"
  by (induction hs arbitrary: v) (auto split: sum.splits)

lemma setFromTypeHandler_error_unmodified:
  "setFromTypeHandler th field value = Inr (has, Some e, field') \<Longrightarrow> field' = field"
  by (auto simp: setFromTypeHandler_def split: option.splits sum.splits)

text \<open>
  Claim C1. The chain runs from left to right, stops at the first error and then leaves
  the field as it was (the three lemmas above), but it does not thread the values:
  every converter is called on the tokens of the line. With the chain
  \<open>[keepFirst, OneValue]\<close> registered for \<^verbatim>\<open>[]string\<close> and the tokens \<open>a b\<close>, the
  first converter returns the single token \<open>a\<close>, on which \<open>OneValue\<close> succeeds; the
  code calls \<open>OneValue\<close> on \<open>a b\<close> instead, reports its error and assigns nothing.
\<close>

theorem setFromTypeHandler_not_threaded:
  "setFromTypeHandler (RegisterType Map.empty ''[]string'' [keepFirst, OneValue])
       (''[]string'', Strings []) [''a'', ''b'']
     = Inr (True, Some ''must have exactly one value'', (''[]string'', Strings []))
   \<and> keepFirst [''a'', ''b''] = Inr (Strings [''a''])
   \<and> OneValue [''a''] = Inr (Strings [''a''])"
  by (simp add: setFromTypeHandler_def RegisterType_def keepFirst_def OneValue_def)

text \<open>
  Claim C9. \<open>OneValue\<close> returns an error exactly when the number of tokens is not one,
  and \<open>NValues mn mx\<close> exactly when a positive \<open>mn\<close> is above that number or a
  positive \<open>mx\<close> is below it; a check that passes returns the tokens. A field whose
  chain starts with \<open>OneValue\<close> and that is given any number of tokens other than one
  (two, say) gets the arity error and keeps its value.
\<close>

theorem arity_checks:
  "(isl (OneValue v) \<longleftrightarrow> length v \<noteq> 1)
   \<and> (isl (NValues mn mx w) \<longleftrightarrow>
        (0 < mn \<and> int (length w) < mn) \<or> (0 < mx \<and> mx < int (length w)))
   \<and> (length v = 1 \<longrightarrow> OneValue v = Inr (Strings v))
   \<and> (\<not> isl (NValues mn mx w) \<longrightarrow> NValues mn mx w = Inr (Strings w))
   \<and> (typeHandlers (fst field) = Some (OneValue # hs) \<and> length value \<noteq> 1 \<longrightarrow>
        setFromTypeHandler typeHandlers field value
          = Inr (True, Some ''must have exactly one value'', field))"
  by (auto simp: OneValue_def NValues_def setFromTypeHandler_def)

theorem arity_checks_witness:
  "isl (OneValue [''a'', ''b'']) \<and> \<not> isl (OneValue [''a''])
   \<and> isl (NValues 2 3 [''a'']) \<and> \<not> isl (NValues 2 3 [''a'', ''b'', ''c''])
   \<and> isl (NValues 2 3 [''a'', ''b'', ''c'', ''d'']) \<and> \<not> isl (NValues 0 0 [])
   \<and> OneValue [''a''] = Inr (Strings [''a''])
   \<and> NValues 2 3 [''a'', ''b'', ''c''] = Inr (Strings [''a'', ''b'', ''c''])
   \<and> setFromTypeHandler [''string'' \<mapsto> [OneValue, \<lambda>v. Inr (Str (hd v))]]
         (''string'', Str ''old'') [''a'', ''b'']
       = Inr (True, Some ''must have exactly one value'', (''string'', Str ''old''))"
  using arity_checks [of "[''a'', ''b'']" 2 3 "[''a'']"
      "[''string'' \<mapsto> [OneValue, \<lambda>v. Inr (Str (hd v))]]" "(''string'', Str ''old'')"
      "[\<lambda>v. Inr (Str (hd v))]" "[''a'', ''b'']"]
    arity_checks [of "[''a'']" 2 3 "[''a'', ''b'', ''c'']"]
    arity_checks [of "[''a'']" 2 3 "[''a'', ''b'', ''c'', ''d'']"]
    arity_checks [of "[''a'']" 0 0 "[]"]
  by simp

subsection \<open>Indented lines and source lines\<close>

lemma readLine_indented:
  assumes "isIndented raw" and "TrimSpace raw \<noteq> []" and "hd (TrimSpace raw) \<noteq> hash"
    and "lineText (TrimSpace raw) = Inr body"
  shows "readLine rf raw (lines, i, no)
     = (if i = 0 then Inl (Failed ''first line can't be indented'')
        else if i - 1 < length lines then
          Inr (lines[i - 1 := (fst (lines ! (i - 1)), snd (lines ! (i - 1)) @ '' '' @ body)],
               i, Suc no)
        else Inl Panic)"
  using assms by (simp add: readLine_def Let_def)

lemma readLine_indented_last:
  assumes "isIndented raw" and "TrimSpace raw \<noteq> []" and "hd (TrimSpace raw) \<noteq> hash"
    and "lineText (TrimSpace raw) = Inr body" and "lines \<noteq> []" and "i = length lines"
  shows "readLine rf raw (lines, i, no)
     = Inr (butlast lines @ [(fst (last lines), snd (last lines) @ '' '' @ body)], i, Suc no)"
proof -
  from assms(5) obtain xs x where l: "lines = xs @ [x]"
    by (cases lines rule: rev_cases) auto
  show ?thesis
    unfolding readLine_indented [OF assms(1-4)] using assms(6)
    by (simp add: l nth_append)
qed

lemma readLine_indented_no_line:
  assumes "isIndented raw" and "TrimSpace raw \<noteq> []" and "hd (TrimSpace raw) \<noteq> hash"
    and "lineText (TrimSpace raw) = Inr body" and "0 < i"
  shows "readLine rf raw ([], i, no) = Inl Panic"
  unfolding readLine_indented [OF assms(1-4)] using assms(5) by simp

text \<open>
  Claim C3. The guard of the indented case is \<open>i = 0\<close>, and \<open>i\<close> counts the lines of
  this file that are not indented, \<^verbatim>\<open>source\<close> lines too (lemma \<open>readLine_indented\<close>
  is the indented case, and \<open>readLine_indented_no_line\<close> what it does when \<open>i\<close> is
  positive and no logical line exists). When the file starts with a \<^verbatim>\<open>source\<close> line
  for an empty file and goes on with an indented line, then \<open>i = 1\<close>, no logical line
  exists, and \<^verbatim>\<open>lines[i-1]\<close> panics, for every nesting bound that lets the two files
  be read.
\<close>

theorem readFile_indented_after_empty_source_panics:
  "readFile (Suc (Suc n)) fsEmptySource ''main'' = Inl Panic"
  by (simp add: fsEmptySource_def line_eval)

text \<open>
  Claim C4. The indented line is appended to \<^verbatim>\<open>lines[i-1]\<close>, which is the last
  logical line as long as \<open>i\<close> is the number of logical lines (lemma
  \<open>readLine_indented_last\<close>), that is, as long as every line that was not indented
  has added exactly one logical line. After a \<^verbatim>\<open>source\<close> line that has spliced in
  the two lines \<open>a 1\<close> and \<open>b 2\<close>, the continuation \<open>z\<close> goes to the first of
  them and not to the last.
\<close>

theorem readFile_continuation_after_source_misplaced:
  "readFile (Suc (Suc n)) fsTwoLineSource ''main''
     = Inr [(''1'', ''a 1 z''), (''2'', ''b 2'')]"
  by (simp add: fsTwoLineSource_def line_eval)

subsection \<open>The name resolver\<close>

lemmas resolver_eval =
  fieldNameFromKey_def upperAcronyms_def acr_def ToUpper_def HasPrefix_def specInflect_def
  specCamelize_def specPluralize_def Let_def Replace.simps

lemma upperAcronyms_Records: "upperAcronyms ''Records'' = ''Records''"
  by (simp add: upperAcronyms_def acr_def ToUpper_def HasPrefix_def Replace.simps)

lemma upperAcronyms_Record: "upperAcronyms ''Record'' = ''Record''"
  by (simp add: upperAcronyms_def acr_def ToUpper_def HasPrefix_def Replace.simps)

text \<open>
  Claim C2, as stated: with a field \<open>Record\<close> and no field \<open>Records\<close>, the key
  \<open>records\<close> is not resolved. The resolver tries the camel-cased name \<open>Records\<close> and
  its plural, and has no step from a plural to its singular.
\<close>

theorem fieldNameFromKey_records_unknown:
  "fieldNameFromKey specInflect ''records'' [''Record'' \<mapsto> (''string'', Str [])]
     = Inl ''unknown option (field Records or Records is missing)''"
  by (simp add: resolver_eval)

text \<open>
  Claim C2, amended. For every camel-casing that maps \<open>records\<close> to \<open>Records\<close> and
  every pluralization: when neither \<open>Records\<close> nor its plural is a field, the key
  \<open>records\<close> fails with the unknown-option error that names both, whatever other
  fields (a field \<open>Record\<close>, say) exist. The fallback exists in the other direction
  only: with a field \<open>Records\<close> and no field \<open>Record\<close>, the key \<open>record\<close>
  resolves to \<open>Records\<close> when that is the plural of \<open>Record\<close>.
\<close>

theorem fieldNameFromKey_plural_fallback_only:
  "(Camelize infl ''records'' = ''Records'' \<and> c ''Records'' = None
      \<and> c (Pluralize infl ''Records'') = None \<longrightarrow>
      fieldNameFromKey infl ''records'' c
        = Inl (''unknown option (field Records or '' @ Pluralize infl ''Records''
                 @ '' is missing)''))
   \<and> (Camelize infl ''record'' = ''Record'' \<and> Pluralize infl ''Record'' = ''Records''
      \<and> c ''Record'' = None \<and> c ''Records'' \<noteq> None \<longrightarrow>
      fieldNameFromKey infl ''record'' c = Inr ''Records'')"
  by (simp add: fieldNameFromKey_def Let_def upperAcronyms_Records upperAcronyms_Record)

theorem fieldNameFromKey_plural_fallback_only_witness:
  "fieldNameFromKey specInflect ''records'' [''Record'' \<mapsto> (''string'', Str [])]
     = Inl (''unknown option (field Records or '' @ Pluralize specInflect ''Records''
                 @ '' is missing)'')
   \<and> fieldNameFromKey specInflect ''record'' [''Records'' \<mapsto> (''string'', Str [])]
     = Inr ''Records''"
proof -
  have camel: "Camelize specInflect ''records'' = ''Records''"
    "Camelize specInflect ''record'' = ''Record''"
    by (simp_all add: specInflect_def specCamelize_def ToUpper_def)
  have plural: "Pluralize specInflect ''Records'' = ''Records''"
    "Pluralize specInflect ''Record'' = ''Records''"
    by (simp_all add: specInflect_def specPluralize_def)
  show ?thesis
    using fieldNameFromKey_plural_fallback_only
        [of specInflect "[''Record'' \<mapsto> (''string'', Str [])]"]
      fieldNameFromKey_plural_fallback_only
        [of specInflect "[''Records'' \<mapsto> (''string'', Str [])]"]
    by (simp add: camel plural)
qed

subsection \<open>Errors of Parse\<close>

lemma setFromTypeHandler_fault:
  "setFromTypeHandler th field value = Inl f \<Longrightarrow> f = Panic"
  by (auto simp: setFromTypeHandler_def fieldSet_def split: option.splits sum.splits if_splits)

lemma parseLine_error_enriched:
  assumes "parseLine infl th file handlers line c = (Some (Failed m), c')"
  shows "\<exists>err. m = fmterr file (fst line) (hd (Split (snd line))) err"
  using assms
  by (auto simp: parseLine_def Let_def dest: setFromTypeHandler_fault
      split: sum.splits prod.splits bool.splits option.splits)

lemma parseLines_error_enriched:
  assumes "parseLines infl th file handlers lines c = (Some (Failed m), c')"
  shows "\<exists>line \<in> set lines. \<exists>err. m = fmterr file (fst line) (hd (Split (snd line))) err"
  using assms
proof (induction lines arbitrary: c)
  case Nil
  then show ?case by simp
next
  case (Cons line rest)
  show ?case
  proof (cases "parseLine infl th file handlers line c")
    case (Pair r c1)
    show ?thesis
    proof (cases r)
      case None
      with Pair Cons.prems have "parseLines infl th file handlers rest c1 = (Some (Failed m), c')"
        by simp
      from Cons.IH [OF this] show ?thesis by auto
    next
      case (Some f)
      with Pair Cons.prems have "parseLine infl th file handlers line c = (Some (Failed m), c')"
        by simp
      from parseLine_error_enriched [OF this] show ?thesis by auto
    qed
  qed
qed

text \<open>
  Claim C6, as stated: the errors of \<open>readFile\<close> are returned by \<^verbatim>\<open>Parse\<close> as they
  are. The error of opening the file, the error of opening a sourced file and the error
  for an indented first line carry no path, no line number and no key.
\<close>

theorem Parse_readFile_errors_not_enriched:
  "Parse specInflect Map.empty (Suc 0) fsNone Map.empty ''main'' None
     = (Some (Failed ''open main: no such file or directory''), Map.empty)
   \<and> Parse specInflect Map.empty (Suc (Suc 0)) fsMissingSource Map.empty ''main'' None
     = (Some (Failed ''open missing: no such file or directory''), Map.empty)
   \<and> Parse specInflect Map.empty (Suc 0) fsIndented Map.empty ''main'' None
     = (Some (Failed ''first line can't be indented''), Map.empty)
   \<and> \<not> (\<exists>line key err. ''open main: no such file or directory'' = fmterr ''main'' line key err)
   \<and> \<not> (\<exists>line key err. ''open missing: no such file or directory'' = fmterr ''main'' line key err)
   \<and> \<not> (\<exists>line key err. ''first line can't be indented'' = fmterr ''main'' line key err)"
  by (simp add: Parse_def fsNone_def fsMissingSource_def fsIndented_def noSuchFile_def
      fmterr_def line_eval)

text \<open>
  Claim C6, amended. A fault of \<open>readFile\<close> is returned unchanged, with the struct
  untouched. Every other error that \<^verbatim>\<open>Parse\<close> returns comes from a logical line and
  is formatted by \<open>fmterr\<close> with the path given to \<^verbatim>\<open>Parse\<close>, the number recorded
  for that line and the key, which is the first token of the line.
\<close>

theorem Parse_errors_enriched_after_readFile:
  "(readFile fuel fs file = Inl f \<longrightarrow> Parse infl th fuel fs c file handlers = (Some f, c))
   \<and> (Parse infl th fuel fs c file handlers = (Some (Failed m), c') \<longrightarrow>
        readFile fuel fs file = Inl (Failed m)
        \<or> (\<exists>lines line err. readFile fuel fs file = Inr lines \<and> line \<in> set lines
              \<and> m = fmterr file (fst line) (hd (Split (snd line))) err))"
proof (intro conjI impI)
  assume "readFile fuel fs file = Inl f"
  then show "Parse infl th fuel fs c file handlers = (Some f, c)"
    by (simp add: Parse_def)
next
  assume p: "Parse infl th fuel fs c file handlers = (Some (Failed m), c')"
  show "readFile fuel fs file = Inl (Failed m)
        \<or> (\<exists>lines line err. readFile fuel fs file = Inr lines \<and> line \<in> set lines
              \<and> m = fmterr file (fst line) (hd (Split (snd line))) err)"
  proof (cases "readFile fuel fs file")
    case (Inl g)
    with p show ?thesis by (simp add: Parse_def)
  next
    case (Inr lines)
    with p have "parseLines infl th file handlers lines c = (Some (Failed m), c')"
      by (simp add: Parse_def)
    from parseLines_error_enriched [OF this] Inr show ?thesis by blast
  qed
qed

theorem Parse_errors_enriched_after_readFile_witness:
  "readFile (Suc 0) fsNone ''main'' = Inl (Failed ''open main: no such file or directory'')
   \<and> Parse specInflect Map.empty (Suc 0) fsNone Map.empty ''main'' None
       = (Some (Failed ''open main: no such file or directory''), Map.empty)
   \<and> Parse specInflect Map.empty (Suc 0) fsBogus Map.empty ''main'' None
       = (Some (Failed (fmterr ''main'' ''1'' ''bogus''
            ''unknown option (field Bogus or Bogus is missing)'')), Map.empty)
   \<and> (\<exists>lines line err. readFile (Suc 0) fsBogus ''main'' = Inr lines \<and> line \<in> set lines
        \<and> fmterr ''main'' ''1'' ''bogus'' ''unknown option (field Bogus or Bogus is missing)''
            = fmterr ''main'' (fst line) (hd (Split (snd line))) err)"
proof -
  let ?m = "fmterr ''main'' ''1'' ''bogus'' ''unknown option (field Bogus or Bogus is missing)''"
  have r: "readFile (Suc 0) fsNone ''main'' = Inl (Failed ''open main: no such file or directory'')"
    by (simp add: fsNone_def noSuchFile_def)
  have b: "readFile (Suc 0) fsBogus ''main'' = Inr [(''1'', ''bogus value'')]"
    by (simp add: fsBogus_def line_eval)
  have k: "fieldNameFromKey specInflect ''bogus'' Map.empty
      = Inl ''unknown option (field Bogus or Bogus is missing)''"
    by (simp add: resolver_eval)
  have p: "Parse specInflect Map.empty (Suc 0) fsBogus Map.empty ''main'' None
       = (Some (Failed ?m), Map.empty)"
    unfolding Parse_def b by (simp add: parseLine_def k)
  have 1: "Parse specInflect Map.empty (Suc 0) fsNone Map.empty ''main'' None
       = (Some (Failed ''open main: no such file or directory''), Map.empty)"
    by (rule Parse_errors_enriched_after_readFile [THEN conjunct1, THEN mp, OF r])
  have 2: "readFile (Suc 0) fsBogus ''main'' = Inl (Failed ?m)
      \<or> (\<exists>lines line err. readFile (Suc 0) fsBogus ''main'' = Inr lines \<and> line \<in> set lines
        \<and> ?m = fmterr ''main'' (fst line) (hd (Split (snd line))) err)"
    by (rule Parse_errors_enriched_after_readFile [THEN conjunct2, THEN mp, OF p])
  from 2 have 3: "\<exists>lines line err. readFile (Suc 0) fsBogus ''main'' = Inr lines \<and> line \<in> set lines
        \<and> ?m = fmterr ''main'' (fst line) (hd (Split (snd line))) err"
    unfolding b by (elim disjE) simp_all
  show ?thesis
    by (intro conjI r 1 p 3)
qed

subsection \<open>Custom handlers\<close>

text \<open>
  Claim C7. When the resolved field name has a custom handler, the loop body calls the
  handler on the tokens after the key. An error of the handler ends \<^verbatim>\<open>Parse\<close> with
  the error wrapped by \<open>(from handler)\<close> and formatted by \<open>fmterr\<close>; without an
  error the loop goes on with the rest of the lines in the struct that the handler has
  left. The result is the same for every type registry.
\<close>

theorem custom_handler_dispatch:
  assumes "fieldNameFromKey infl (hd (Split (snd line))) c = Inr fieldName"
    and "handlers = Some hs" and "hs fieldName = Some handler"
  shows "parseLine infl typeHandlers path handlers line c
      = (case handler (tl (Split (snd line))) c of
           (Some err, c') \<Rightarrow>
             (Some (Failed (fmterr path (fst line) (hd (Split (snd line)))
                (err @ '' (from handler)''))), c')
         | (None, c') \<Rightarrow> (None, c'))
    \<and> parseLine infl typeHandlers path handlers line c
      = parseLine infl typeHandlers' path handlers line c
    \<and> parseLines infl typeHandlers path handlers (line # rest) c
      = (case handler (tl (Split (snd line))) c of
           (Some err, c') \<Rightarrow>
             (Some (Failed (fmterr path (fst line) (hd (Split (snd line)))
                (err @ '' (from handler)''))), c')
         | (None, c') \<Rightarrow> parseLines infl typeHandlers path handlers rest c')"
proof -
  have step: "parseLine infl th path handlers line c
      = (case handler (tl (Split (snd line))) c of
           (Some err, c') \<Rightarrow>
             (Some (Failed (fmterr path (fst line) (hd (Split (snd line)))
                (err @ '' (from handler)''))), c')
         | (None, c') \<Rightarrow> (None, c'))" for th
    using assms
    by (simp add: parseLine_def setFromHandler_def Let_def split: prod.splits option.splits)
  show ?thesis
    by (simp add: step split: prod.splits option.splits)
qed

theorem custom_handler_dispatch_witness:
  "parseLine specInflect Map.empty ''main'' (Some [''Bool'' \<mapsto> boolHandler]) (''1'', ''bool yup'') boolConfig
     = (None, [''Bool'' \<mapsto> (''bool'', Other ''bool'' ''true'')])
   \<and> parseLine specInflect Map.empty ''main'' (Some [''Bool'' \<mapsto> boolHandler]) (''2'', ''bool nope'') boolConfig
     = (Some (Failed ''main line 2: error parsing bool: not a bool (from handler)''), boolConfig)
   \<and> Parse specInflect Map.empty (Suc 0) fsBool boolConfig ''main'' (Some [''Bool'' \<mapsto> boolHandler])
     = (Some (Failed ''main line 2: error parsing bool: not a bool (from handler)''),
        [''Bool'' \<mapsto> (''bool'', Other ''bool'' ''true'')])"
proof -
  let ?hs = "[''Bool'' \<mapsto> boolHandler]"
  let ?set = "[''Bool'' \<mapsto> (''bool'', Other ''bool'' ''true'')]"
  have r1: "fieldNameFromKey specInflect (hd (Split (snd (''1'', ''bool yup'')))) boolConfig
      = Inr ''Bool''"
    by (simp add: resolver_eval boolConfig_def)
  have r2: "fieldNameFromKey specInflect (hd (Split (snd (''2'', ''bool nope'')))) boolConfig
      = Inr ''Bool''"
    by (simp add: resolver_eval boolConfig_def)
  have r3: "fieldNameFromKey specInflect (hd (Split (snd (''2'', ''bool nope'')))) ?set
      = Inr ''Bool''"
    by (simp add: resolver_eval)
  have rd: "readFile (Suc 0) fsBool ''main'' = Inr [(''1'', ''bool yup''), (''2'', ''bool nope'')]"
    by (simp add: fsBool_def line_eval)
  have hs: "?hs ''Bool'' = Some boolHandler"
    by simp
  note h1 = custom_handler_dispatch [where infl = specInflect and line = "(''1'', ''bool yup'')"
      and c = boolConfig and fieldName = "''Bool''" and handlers = "Some ?hs" and hs = ?hs
      and handler = boolHandler and typeHandlers = Map.empty and path = "''main''"
      and typeHandlers' = Map.empty and rest = "[(''2'', ''bool nope'')]", OF r1 refl hs]
  note h2 = custom_handler_dispatch [where infl = specInflect and line = "(''2'', ''bool nope'')"
      and c = ?set and fieldName = "''Bool''" and handlers = "Some ?hs" and hs = ?hs
      and handler = boolHandler and typeHandlers = Map.empty and path = "''main''"
      and typeHandlers' = Map.empty and rest = "[]", OF r3 refl hs]
  note h3 = custom_handler_dispatch [where infl = specInflect and line = "(''2'', ''bool nope'')"
      and c = boolConfig and fieldName = "''Bool''" and handlers = "Some ?hs" and hs = ?hs
      and handler = boolHandler and typeHandlers = Map.empty and path = "''main''"
      and typeHandlers' = Map.empty and rest = "[]", OF r2 refl hs]
  have p: "Parse specInflect Map.empty (Suc 0) fsBool boolConfig ''main'' (Some ?hs)
      = parseLines specInflect Map.empty ''main'' (Some ?hs)
          [(''1'', ''bool yup''), (''2'', ''bool nope'')] boolConfig"
    unfolding Parse_def rd by simp
  show ?thesis
    unfolding p using h1 h2 h3
    by (simp add: boolHandler_def boolConfig_def fmterr_def)
qed

subsection \<open>Source lines\<close>

lemma scanLines_append:
  "scanLines rf (pre @ post) st
     = (case scanLines rf pre st of Inl f \<Rightarrow> Inl f | Inr st' \<Rightarrow> scanLines rf post st')"
  by (induction pre arbitrary: st) (auto split: sum.splits)

lemma removeComments_hash_first: "removeComments (hash # s) = Inl Panic"
  by (simp add: removeComments_def removeCommentsLoop.simps byteAt_def)

lemma lineText_Nil: "lineText [] = Inr []"
  by (simp add: lineText_def removeComments_def removeCommentsLoop.simps
      collapseWhitespace_def collapseLoop.simps)

lemma readLine_source:
  assumes "\<not> isIndented raw" and "lineText (TrimSpace raw) = Inr (''source '' @ path)"
  shows "readLine rf raw (lines, i, no)
     = (case rf path of Inl f \<Rightarrow> Inl f | Inr sourced \<Rightarrow> Inr (lines @ sourced, Suc i, Suc no))"
proof -
  have ne: "TrimSpace raw \<noteq> []"
    using assms(2) by (auto simp: lineText_Nil)
  have "hd (TrimSpace raw) \<noteq> hash"
  proof
    assume "hd (TrimSpace raw) = hash"
    with ne have "TrimSpace raw = hash # tl (TrimSpace raw)"
      by (cases "TrimSpace raw") simp_all
    then have "lineText (TrimSpace raw) = Inl Panic"
      by (metis lineText_def removeComments_hash_first sum.case(1))
    with assms(2) show False by simp
  qed
  with ne assms show ?thesis
    by (simp add: readLine_def Let_def HasPrefix_def split: sum.splits)
qed

lemma readLine_lines:
  assumes "readLine rf raw (lines, i, no) = Inr (lines', i', no')"
  shows "lines' = lines
    \<or> (\<exists>t. lines' = lines[i - 1 := (fst (lines ! (i - 1)), t)])
    \<or> (\<exists>ext. lines' = lines @ ext)"
proof (cases "TrimSpace raw = [] \<or> hd (TrimSpace raw) = hash")
  case True
  with assms show ?thesis
    by (simp add: readLine_def Let_def)
next
  case False
  with assms obtain body where body: "lineText (TrimSpace raw) = Inr body"
    by (cases "lineText (TrimSpace raw)") (simp_all add: readLine_def Let_def)
  show ?thesis
  proof (cases "isIndented raw")
    case True
    with assms False body have "lines' = lines[i - 1 := (fst (lines ! (i - 1)), snd (lines ! (i - 1)) @ '' '' @ body)]"
      by (auto simp: readLine_def Let_def split: if_splits)
    then show ?thesis by blast
  next
    case ni: False
    show ?thesis
    proof (cases "HasPrefix body ''source ''")
      case True
      with assms False body ni obtain sourced where "lines' = lines @ sourced"
        by (cases "rf (drop 7 body)") (auto simp: readLine_def Let_def)
      then show ?thesis by blast
    next
      case np: False
      with assms False body ni have "lines' = lines @ [(Itoa (no + 1), body)]"
        by (auto simp: readLine_def Let_def)
      then show ?thesis by blast
    qed
  qed
qed

lemma readLine_numbers:
  assumes "readLine rf raw (lines, i, no) = Inr (lines', i', no')"
  shows "prefix (map fst lines) (map fst lines')"
proof -
  have upd: "map fst (lines[k := (fst (lines ! k), t)]) = map fst lines" for k t
    by (metis fst_conv list_update_id map_update)
  from readLine_lines [OF assms] show ?thesis
    by (elim disjE exE) (simp_all add: upd)
qed

lemma scanLines_numbers:
  assumes "scanLines rf raws (lines, i, no) = Inr (lines', i', no')"
  shows "prefix (map fst lines) (map fst lines')"
  using assms
proof (induction raws arbitrary: lines i no)
  case Nil
  then show ?case by simp
next
  case (Cons raw raws)
  from Cons.prems obtain l1 i1 n1 where
    step: "readLine rf raw (lines, i, no) = Inr (l1, i1, n1)"
    and rest: "scanLines rf raws (l1, i1, n1) = Inr (lines', i', no')"
    by (auto split: sum.splits)
  from readLine_numbers [OF step] Cons.IH [OF rest] show ?case
    by (rule prefix_order.trans)
qed

text \<open>
  One \<^verbatim>\<open>source\<close> line. Let a file consist of the lines \<open>pre\<close>, a line that is not
  indented and whose text is \<open>source path\<close>, and the lines \<open>post\<close>, and let
  \<open>pre\<close> be read without a fault, with the logical lines \<open>lines\<close>. A fault of
  reading \<open>path\<close> is the result of the whole read. Otherwise the logical lines of
  \<open>path\<close> are appended to \<open>lines\<close>, \<open>i\<close> grows by one, and the read goes on
  with \<open>post\<close>; the line numbers of \<open>lines\<close> and of the appended lines stay.
\<close>

lemma readFile_source_splices:
  assumes "fs file = Inr (pre @ raw # post)"
    and "scanLines (readFile n fs) pre ([], 0, 0) = Inr (lines, i, no)"
    and "\<not> isIndented raw"
    and "lineText (TrimSpace raw) = Inr (''source '' @ path)"
  shows "(\<forall>f. readFile n fs path = Inl f \<longrightarrow> readFile (Suc n) fs file = Inl f)
    \<and> (\<forall>sourced. readFile n fs path = Inr sourced \<longrightarrow>
          readFile (Suc n) fs file
            = (case scanLines (readFile n fs) post (lines @ sourced, Suc i, Suc no) of
                 Inl f \<Rightarrow> Inl f
               | Inr st \<Rightarrow> Inr (fst st))
          \<and> (\<forall>out. readFile (Suc n) fs file = Inr out \<longrightarrow>
                prefix (map fst lines @ map fst sourced) (map fst out)))"
proof -
  have scan: "scanLines (readFile n fs) (pre @ raw # post) ([], 0, 0)
      = (case readFile n fs path of
           Inl f \<Rightarrow> Inl f
         | Inr sourced \<Rightarrow> scanLines (readFile n fs) post (lines @ sourced, Suc i, Suc no))"
    by (simp add: scanLines_append assms(2) readLine_source [OF assms(3,4)] split: sum.splits)
  have rf: "readFile (Suc n) fs file
      = (case scanLines (readFile n fs) (pre @ raw # post) ([], 0, 0) of
           Inl f \<Rightarrow> Inl f
         | Inr st \<Rightarrow> Inr (fst st))"
    by (simp add: assms(1))
  show ?thesis
  proof (intro conjI allI impI)
    fix f
    assume "readFile n fs path = Inl f"
    then show "readFile (Suc n) fs file = Inl f"
      unfolding rf scan by simp
  next
    fix sourced
    assume s: "readFile n fs path = Inr sourced"
    then show "readFile (Suc n) fs file
        = (case scanLines (readFile n fs) post (lines @ sourced, Suc i, Suc no) of
             Inl f \<Rightarrow> Inl f
           | Inr st \<Rightarrow> Inr (fst st))"
      unfolding rf scan by simp
  next
    fix sourced out
    assume s: "readFile n fs path = Inr sourced"
      and o: "readFile (Suc n) fs file = Inr out"
    from o obtain i' no' where
      "scanLines (readFile n fs) post (lines @ sourced, Suc i, Suc no) = Inr (out, i', no')"
      unfolding rf scan s by (auto split: sum.splits)
    from scanLines_numbers [OF this]
    show "prefix (map fst lines @ map fst sourced) (map fst out)"
      by simp
  qed
qed

text \<open>
  Claim C5. The result of a file with a \<^verbatim>\<open>source\<close> line is not the result with the
  logical lines of the sourced file in the place of that line. The lines are appended
  and a fault of the sourced file ends the read (lemma \<open>readFile_source_splices\<close>),
  but \<open>i\<close> has counted the \<^verbatim>\<open>source\<close> line as one line, and a later indented line
  is appended to \<^verbatim>\<open>lines[i-1]\<close>. In the file with the lines \<open>source inc\<close>,
  \<open>k 0\<close> and the indented \<open>z\<close>, where \<open>inc\<close> holds \<open>a 1\<close> and \<open>b 2\<close>, the
  continuation \<open>z\<close> is appended to the spliced line \<open>b 2\<close>. With \<open>a 1\<close> and
  \<open>b 2\<close> written in the place of the \<^verbatim>\<open>source\<close> line it is appended to \<open>k 0\<close>,
  the line before it.
\<close>

theorem readFile_source_then_continuation_differs:
  "readFile (Suc (Suc n)) fsSourceThenLine ''main''
     = Inr [(''1'', ''a 1''), (''2'', ''b 2 z''), (''2'', ''k 0'')]
   \<and> readFile (Suc n) fsSplicedByHand ''main''
     = Inr [(''1'', ''a 1''), (''2'', ''b 2''), (''3'', ''k 0 z'')]"
  by (simp add: fsSourceThenLine_def fsSplicedByHand_def line_eval)

subsection \<open>Comments\<close>

lemma IndexByte_None: "IndexByte s c = None \<longleftrightarrow> c \<notin> set s"
  by (induction s) auto

lemma IndexByte_Some:
  "IndexByte s c = Some k \<Longrightarrow> \<exists>rest. s = take k s @ c # rest \<and> c \<notin> set (take k s) \<and> k < length s"
proof (induction s arbitrary: k)
  case Nil
  then show ?case by simp
next
  case (Cons x xs)
  show ?case
  proof (cases "x = c")
    case True
    with Cons.prems show ?thesis by simp
  next
    case False
    with Cons.prems obtain j where j: "IndexByte xs c = Some j" "k = Suc j"
      by auto
    from Cons.IH [OF j(1)] obtain rest where
      "xs = take j xs @ c # rest" "c \<notin> set (take j xs)" "j < length xs"
      by blast
    with False j(2) show ?thesis
      by (intro exI [of _ rest]) simp
  qed
qed

lemma stripCommentSpec_no_hash: "hash \<notin> set s \<Longrightarrow> stripCommentSpec s = s"
  by (induction s rule: stripCommentSpec.induct) auto

lemma stripCommentSpec_hash [simp]: "stripCommentSpec (hash # rest) = []"
  by (cases rest) simp_all

lemma stripCommentSpec_prefix:
  "hash \<notin> set pre \<Longrightarrow>
   stripCommentSpec (pre @ hash # rest)
     = (if pre \<noteq> [] \<and> last pre = backslash then butlast pre @ hash # stripCommentSpec rest
        else pre)"
proof (induction pre)
  case Nil
  then show ?case by simp
next
  case (Cons c pre)
  show ?case
  proof (cases pre)
    case Nil
    with Cons.prems show ?thesis by simp
  next
    case (Cons d pre')
    with Cons.prems Cons.IH show ?thesis by auto
  qed
qed

lemma removeCommentsLoop_spec:
  assumes "p \<le> length line"
    and "p = 0 \<longrightarrow> line = [] \<or> hd line \<noteq> hash"
    and "0 < p \<longrightarrow> line ! (p - 1) \<noteq> backslash"
  shows "removeCommentsLoop line p = Inr (take p line @ stripCommentSpec (drop p line))"
  using assms
proof (induction line p rule: removeCommentsLoop.induct)
  case (1 line p)
  show ?case
  proof (cases "IndexByte (drop p line) hash")
    case None
    then have "hash \<notin> set (drop p line)"
      by (simp add: IndexByte_None)
    with None "1.prems"(1) show ?thesis
      by (subst removeCommentsLoop.simps) (simp add: stripCommentSpec_no_hash)
  next
    case (Some k)
    define cmt where "cmt = k + p"
    define pre where "pre = take k (drop p line)"
    from IndexByte_Some [OF Some] obtain rest where
      d: "drop p line = pre @ hash # rest" and nh: "hash \<notin> set pre" and k: "k < length (drop p line)"
      unfolding pre_def by blast
    have lenpre: "length pre = k"
      using k by (simp add: pre_def)
    have line: "line = take p line @ pre @ hash # rest"
      using d by (metis append_take_drop_id)
    have lentake: "length (take p line) = p"
      using "1.prems"(1) by simp
    have minp: "min (length line) p = p"
      using "1.prems"(1) by simp
    have cmt_pos: "0 < cmt"
    proof (rule ccontr)
      assume "\<not> 0 < cmt"
      then have "p = 0" "k = 0" by (simp_all add: cmt_def)
      with d lenpre have "line = hash # rest" by simp
      with \<open>p = 0\<close> "1.prems"(2) show False by simp
    qed
    have cmt_lt: "cmt < length line"
      using k "1.prems"(1) by (simp add: cmt_def)
    have at: "byteAt line (int cmt - 1) = Inr (line ! (cmt - 1))"
      using cmt_pos cmt_lt by (simp add: byteAt_def nat_diff_distrib')
    have unfold: "removeCommentsLoop line p =
        (if line ! (cmt - 1) = backslash
         then removeCommentsLoop (take (cmt - 1) line @ drop cmt line) cmt
         else Inr (take cmt line))"
      using "1.prems"(1) Some at
      by (subst removeCommentsLoop.simps) (simp add: cmt_def Let_def)
    have takecmt: "take cmt line = take p line @ pre"
      by (simp add: cmt_def pre_def add.commute [of k p] take_add)
    have dropcmt: "drop cmt line = hash # rest"
    proof -
      have "drop cmt line = drop k (drop p line)"
        by (simp add: cmt_def)
      then show ?thesis
        using lenpre by (simp add: d)
    qed
    have nthcmt: "line ! (cmt - 1) = last pre" if kpos: "0 < k"
    proof -
      have idx: "cmt - 1 = length (take p line) + (k - 1)"
        unfolding lentake cmt_def using kpos by simp
      have "line ! (cmt - 1) = (take p line @ pre) ! (cmt - 1)"
        using cmt_pos by (simp add: takecmt [symmetric])
      also have "\<dots> = pre ! (k - 1)"
        unfolding idx by (rule nth_append_length_plus)
      also have "\<dots> = last pre"
      proof -
        from kpos lenpre have "pre \<noteq> []"
          by auto
        then have "last pre = pre ! (length pre - 1)"
          by (rule last_conv_nth)
        then show ?thesis
          by (simp add: lenpre)
      qed
      finally show ?thesis .
    qed
    show ?thesis
    proof (cases "line ! (cmt - 1) = backslash")
      case True
      have kpos: "0 < k"
      proof (rule ccontr)
        assume "\<not> 0 < k"
        then have "cmt = p" by (simp add: cmt_def)
        with True cmt_pos "1.prems"(3) show False by simp
      qed
      then have prene: "pre \<noteq> []"
        using lenpre by auto
      from nthcmt [OF kpos] True have lastpre: "last pre = backslash"
        by simp
      have takecmt1: "take (cmt - 1) line = take p line @ butlast pre"
      proof -
        have "cmt - 1 = p + (k - 1)"
          using kpos by (simp add: cmt_def)
        then have "take (cmt - 1) line = take p line @ take (k - 1) (drop p line)"
          by (simp only: take_add)
        also have "take (k - 1) (drop p line) = take (k - 1) pre"
          using lenpre by (simp add: d)
        also have "\<dots> = butlast pre"
          using lenpre by (simp add: butlast_conv_take)
        finally show ?thesis .
      qed
      define line' where "line' = take (cmt - 1) line @ drop cmt line"
      define A where "A = take p line @ butlast pre @ [hash]"
      have line': "line' = A @ rest"
        unfolding line'_def takecmt1 dropcmt A_def by simp
      have len': "length A = cmt"
        using kpos lenpre by (simp add: A_def minp cmt_def)
      have t': "take cmt line' = A"
        unfolding line' len' [symmetric] by simp
      have d': "drop cmt line' = rest"
        unfolding line' len' [symmetric] by simp
      have n': "line' ! (cmt - 1) = hash"
      proof -
        have "cmt - 1 = length (take p line @ butlast pre)"
          using len' by (simp add: A_def)
        then have "line' ! (cmt - 1)
            = ((take p line @ butlast pre) @ hash # rest) ! length (take p line @ butlast pre)"
          unfolding line' A_def by simp
        also have "\<dots> = hash"
          by (rule nth_append_length)
        finally show ?thesis .
      qed
      have ih: "removeCommentsLoop line' cmt = Inr (take cmt line' @ stripCommentSpec (drop cmt line'))"
        unfolding line'_def
      proof (rule "1.IH" [OF _ Some cmt_def at True])
        show "\<not> length line < p"
          using "1.prems"(1) by simp
        show "cmt \<le> length (take (cmt - 1) line @ drop cmt line)"
          using cmt_lt cmt_pos by simp
        show "cmt = 0 \<longrightarrow> take (cmt - 1) line @ drop cmt line = []
            \<or> hd (take (cmt - 1) line @ drop cmt line) \<noteq> hash"
          using cmt_pos by simp
        show "0 < cmt \<longrightarrow> (take (cmt - 1) line @ drop cmt line) ! (cmt - 1) \<noteq> backslash"
          using n' by (simp add: line'_def)
      qed
      have "removeCommentsLoop line p = removeCommentsLoop line' cmt"
        using unfold True by (simp add: line'_def)
      also have "\<dots> = Inr (take cmt line' @ stripCommentSpec (drop cmt line'))"
        by (rule ih)
      also have "\<dots> = Inr (take p line @ butlast pre @ hash # stripCommentSpec rest)"
        unfolding t' d' A_def by simp
      also have "\<dots> = Inr (take p line @ stripCommentSpec (drop p line))"
        using nh prene lastpre by (simp add: d stripCommentSpec_prefix)
      finally show ?thesis .
    next
      case False
      have "pre = [] \<or> last pre \<noteq> backslash"
      proof (cases "pre = []")
        case True
        then show ?thesis by simp
      next
        case prene: False
        then have kpos: "0 < k" using lenpre by auto
        from nthcmt [OF kpos] False show ?thesis
          by simp
      qed
      then have "stripCommentSpec (drop p line) = pre"
        using nh by (auto simp: d stripCommentSpec_prefix)
      with unfold False takecmt show ?thesis by simp
    qed
  qed
qed

lemma removeComments_spec:
  "line = [] \<or> hd line \<noteq> hash \<Longrightarrow> removeComments line = Inr (stripCommentSpec line)"
  using removeCommentsLoop_spec [of 0 line] by (simp add: removeComments_def)

text \<open>
  Comment lines and comment removal. A raw line whose first character after trimming is
  \<open>#\<close> changes neither the logical lines nor \<open>i\<close>. On a line that does not start
  with \<open>#\<close>, \<open>removeComments\<close> computes \<open>stripCommentSpec\<close>: before the first
  \<open>#\<close> that no backslash precedes, every \<open>\#\<close> becomes the character \<open>#\<close> and
  the text goes on after it, and the first \<open>#\<close> that no backslash precedes cuts the
  line. Whitespace collapsing, when it returns, keeps every \<open>#\<close>.
\<close>

lemma comments_removed:
  "(TrimSpace raw \<noteq> [] \<and> hd (TrimSpace raw) = hash \<longrightarrow>
      readLine rf raw (lines, i, no) = Inr (lines, i, Suc no))
   \<and> (line \<noteq> [] \<and> hd line \<noteq> hash \<longrightarrow> removeComments line = Inr (stripCommentSpec line))
   \<and> (hash \<notin> set pre \<longrightarrow>
        removeComments (pre @ backslash # hash # rest) = Inr (pre @ hash # stripCommentSpec rest))
   \<and> (hash \<notin> set pre \<and> pre \<noteq> [] \<and> last pre \<noteq> backslash \<longrightarrow>
        removeComments (pre @ hash # rest) = Inr pre)
   \<and> (line \<noteq> [] \<and> hd line \<noteq> hash \<and> lineText line = Inr body \<longrightarrow>
        filter ((=) hash) body = filter ((=) hash) (stripCommentSpec line))"
proof (intro conjI impI)
  assume "TrimSpace raw \<noteq> [] \<and> hd (TrimSpace raw) = hash"
  then show "readLine rf raw (lines, i, no) = Inr (lines, i, Suc no)"
    by (simp add: readLine_def Let_def)
next
  assume "line \<noteq> [] \<and> hd line \<noteq> hash"
  then show "removeComments line = Inr (stripCommentSpec line)"
    by (simp add: removeComments_spec)
next
  assume nh: "hash \<notin> set pre"
  then have "hd (pre @ backslash # hash # rest) \<noteq> hash"
    by (cases pre) auto
  then have "removeComments (pre @ backslash # hash # rest)
      = Inr (stripCommentSpec ((pre @ [backslash]) @ hash # rest))"
    by (simp add: removeComments_spec)
  also have "\<dots> = Inr (pre @ hash # stripCommentSpec rest)"
    using nh by (subst stripCommentSpec_prefix) simp_all
  finally show "removeComments (pre @ backslash # hash # rest)
      = Inr (pre @ hash # stripCommentSpec rest)" .
next
  assume a: "hash \<notin> set pre \<and> pre \<noteq> [] \<and> last pre \<noteq> backslash"
  then have "hd (pre @ hash # rest) \<noteq> hash"
    by (cases pre) auto
  then have "removeComments (pre @ hash # rest) = Inr (stripCommentSpec (pre @ hash # rest))"
    by (simp add: removeComments_spec)
  with a show "removeComments (pre @ hash # rest) = Inr pre"
    by (simp add: stripCommentSpec_prefix)
next
  assume a: "line \<noteq> [] \<and> hd line \<noteq> hash \<and> lineText line = Inr body"
  then have "removeComments line = Inr (stripCommentSpec line)"
    by (simp add: removeComments_spec)
  with a have "collapseWhitespace (stripCommentSpec line) = Inr body"
    by (simp add: lineText_def)
  then show "filter ((=) hash) body = filter ((=) hash) (stripCommentSpec line)"
    by (rule collapseWhitespace_hashes)
qed

text \<open>
  The logical line of a raw line that is not indented and is no comment line: its text is
  \<open>stripCommentSpec\<close> of the trimmed line, with the whitespace collapsed.
\<close>

lemma readLine_logical_line:
  assumes "\<not> isIndented raw" and "TrimSpace raw \<noteq> []" and "hd (TrimSpace raw) \<noteq> hash"
  shows "readLine rf raw (lines, i, no)
     = (case collapseWhitespace (stripCommentSpec (TrimSpace raw)) of
          Inl f \<Rightarrow> Inl f
        | Inr body \<Rightarrow>
            if HasPrefix body ''source '' then
              (case rf (drop 7 body) of
                 Inl f \<Rightarrow> Inl f
               | Inr sourced \<Rightarrow> Inr (lines @ sourced, Suc i, Suc no))
            else Inr (lines @ [(Itoa (Suc no), body)], Suc i, Suc no))"
proof -
  from assms(2,3) have "removeComments (TrimSpace raw) = Inr (stripCommentSpec (TrimSpace raw))"
    by (simp add: removeComments_spec)
  with assms show ?thesis
    by (simp add: readLine_def lineText_def Let_def split: sum.splits)
qed

text \<open>
  Claim C8. A comment line adds no logical line, and \<open>removeComments\<close> turns every
  \<open>\#\<close> before the first unescaped \<open>#\<close> into \<open>#\<close> without cutting the line
  (lemmas \<open>comments_removed\<close> and \<open>readLine_logical_line\<close>). But the text goes
  through \<^verbatim>\<open>collapseWhitespace\<close> before it is stored, and a line with an escaped
  \<open>#\<close> that starts with a backslash gives no logical text at all. The line
  \<^verbatim>\<open>\x \# y\<close> is turned into \<^verbatim>\<open>\x # y\<close> by \<open>removeComments\<close>, on which
  \<^verbatim>\<open>collapseWhitespace\<close> reads \<^verbatim>\<open>line[i-1]\<close> at \<open>i = 0\<close>, and \<open>readFile\<close>
  panics. The line \<^verbatim>\<open>x \# y\<close> gives the logical line \<^verbatim>\<open>x # y\<close>.
\<close>

theorem readFile_escaped_hash_after_backslash_panics:
  "readFile (Suc n) fsBackslashEscape ''main'' = Inl Panic
   \<and> removeComments (backslash # ''x '' @ backslash # ''# y'') = Inr (backslash # ''x # y'')
   \<and> collapseWhitespace (backslash # ''x # y'') = Inl Panic
   \<and> readFile (Suc n) fsEscape ''main'' = Inr [(''1'', ''x # y'')]"
  by (simp add: fsBackslashEscape_def fsEscape_def line_eval)

end
